theory Spec2Isabelle
  imports Main "HOL-Library.Char_ord" "HOL-Library.List_Lexorder"
begin

section \<open>Strings and the regular expression of \<open>extract_identifier\<close>\<close>

text \<open>
  File names and paths are Python \<open>str\<close> values, modelled as \<^typ>\<open>string\<close>
  (lists of 8-bit characters). On these characters the class \<open>\d\<close> of the
  \<open>re\<close> module is exactly the ten characters \<open>0\<close> to \<open>9\<close>.
\<close>

definition is_digit :: "char \<Rightarrow> bool" where
  "is_digit c = (c \<in> set ''0123456789'')"

text \<open>
  \<open>$\<close> without the MULTILINE flag matches at the end of the string and also just
  before a newline that is the last character of the string. The argument is
  the rest of the subject at the position where \<open>$\<close> is tried.
\<close>

definition at_dollar :: "string \<Rightarrow> bool" where
  "at_dollar rest = (rest = [] \<or> rest = [CHR 0x0A])"

text \<open>
  One attempt of the pattern \<open>(\d+)\.jpg$\<close> at the start of \<open>s\<close> with the group
  taking exactly \<open>k\<close> characters, already known to be digits: the literal
  \<open>.jpg\<close> must follow, then \<open>$\<close>. The result is the text of group 1.
\<close>

definition match_with :: "nat \<Rightarrow> string \<Rightarrow> string option" where
  "match_with k s =
     (if take 4 (drop k s) = ''.jpg'' \<and> at_dollar (drop (k + 4) s)
      then Some (take k s) else None)"

text \<open>
  The greedy \<open>\d+\<close>: the longest run of digits is tried first, and the engine gives
  back one digit at a time, never going below one digit.
\<close>

fun backtrack :: "nat \<Rightarrow> string \<Rightarrow> string option" where
  "backtrack 0 s = None"
| "backtrack (Suc k) s =
     (case match_with (Suc k) s of
        Some g \<Rightarrow> Some g
      | None \<Rightarrow> backtrack k s)"

definition match_here :: "string \<Rightarrow> string option" where
  "match_here s = backtrack (length (takeWhile is_digit s)) s"

text \<open>
  \<open>re.search\<close> tries the pattern at every position from left to right and returns
  the first match; \<open>re_search s\<close> is \<open>match.group(1)\<close> of
  \<open>re.search(r'(\d+)\.jpg$', s)\<close>, or \<open>None\<close> when there is no match.
\<close>

fun re_search :: "string \<Rightarrow> string option" where
  "re_search [] = match_here []"
| "re_search (c # cs) =
     (case match_here (c # cs) of
        Some g \<Rightarrow> Some g
      | None \<Rightarrow> re_search cs)"

text \<open>
  \<open>extract_identifier\<close>: the slice \<open>full_id[:-5]\<close> of a string longer than five
  characters is its first \<open>len - 5\<close> characters.
\<close>

definition extract_identifier :: "string \<Rightarrow> string option" where
  "extract_identifier filename =
     (case re_search filename of
        Some full_id \<Rightarrow>
          (if length full_id > 5 then Some (take (length full_id - 5) full_id)
           else Some full_id)
      | None \<Rightarrow> None)"

text \<open>
  Python truthiness of the value returned by \<open>extract_identifier\<close>, as tested by
  \<open>if truncated_id:\<close> and \<open>if not truncated_id:\<close>: \<open>None\<close> and the empty string
  are false, every other string is true.
\<close>

fun truthy :: "string option \<Rightarrow> bool" where
  "truthy None = False"
| "truthy (Some s) = (s \<noteq> [])"

section \<open>String methods and \<open>posixpath\<close>\<close>

text \<open>
  \<open>str.lower\<close>: the letters \<open>A\<close> to \<open>Z\<close> are mapped to \<open>a\<close> to \<open>z\<close>. Only the
  test against \<open>.jpg\<close> uses it, and no character other than \<open>J\<close>, \<open>P\<close>, \<open>G\<close>
  lower-cases to one of \<open>j\<close>, \<open>p\<close>, \<open>g\<close>.
\<close>

definition lower_char :: "char \<Rightarrow> char" where
  "lower_char c =
     (let n = (of_char c :: nat) in if 65 \<le> n \<and> n \<le> 90 then char_of (n + 32) else c)"

definition lower :: "string \<Rightarrow> string" where
  "lower s = map lower_char s"

definition endswith :: "string \<Rightarrow> string \<Rightarrow> bool" where
  "endswith s suf = (length suf \<le> length s \<and> drop (length s - length suf) s = suf)"

definition startswith :: "string \<Rightarrow> string \<Rightarrow> bool" where
  "startswith s pre = (take (length pre) s = pre)"

text \<open>\<open>posixpath.join(a, b)\<close> with one component \<open>b\<close>.\<close>

definition join :: "string \<Rightarrow> string \<Rightarrow> string" where
  "join a b =
     (if startswith b ''/'' then b
      else if a = [] \<or> endswith a ''/'' then a @ b
      else a @ ''/'' @ b)"

text \<open>\<open>posixpath.basename(p)\<close>: \<open>p[p.rfind('/') + 1:]\<close>.\<close>

definition basename :: "string \<Rightarrow> string" where
  "basename p = rev (takeWhile (\<lambda>c. c \<noteq> CHR ''/'') (rev p))"

definition rstrip_sep :: "string \<Rightarrow> string" where
  "rstrip_sep s = rev (dropWhile (\<lambda>c. c = CHR ''/'') (rev s))"

text \<open>
  \<open>posixpath.dirname(p)\<close>: the head \<open>p[:p.rfind('/') + 1]\<close>, with its trailing
  slashes removed unless it consists of slashes only.
\<close>

definition dirname :: "string \<Rightarrow> string" where
  "dirname p =
     (let head = rev (dropWhile (\<lambda>c. c \<noteq> CHR ''/'') (rev p))
      in if head \<noteq> [] \<and> head \<noteq> replicate (length head) CHR ''/'' then rstrip_sep head
         else head)"

text \<open>\<open>path.split('/')\<close> and \<open>'/'.join(comps)\<close>.\<close>

fun split_sep :: "string \<Rightarrow> string list" where
  "split_sep [] = [[]]"
| "split_sep (c # cs) =
     (if c = CHR ''/'' then [] # split_sep cs
      else (case split_sep cs of
              [] \<Rightarrow> [[c]]
            | x # xs \<Rightarrow> (c # x) # xs))"

fun join_sep :: "string list \<Rightarrow> string" where
  "join_sep [] = []"
| "join_sep [x] = x"
| "join_sep (x # y # ys) = x @ ''/'' @ join_sep (y # ys)"

text \<open>
  \<open>posixpath.normpath\<close>: one round of its loop over the components
  (\<open>new_comps\<close> is kept in order, \<open>append\<close> and \<open>pop\<close> work at its end), then the
  function itself.
\<close>

definition norm_step :: "nat \<Rightarrow> string list \<Rightarrow> string \<Rightarrow> string list" where
  "norm_step initial_slashes new_comps component =
     (if component = [] \<or> component = ''.'' then new_comps
      else if component \<noteq> ''..'' \<or> (initial_slashes = 0 \<and> new_comps = [])
               \<or> (new_comps \<noteq> [] \<and> last new_comps = ''..'')
           then new_comps @ [component]
      else if new_comps \<noteq> [] then butlast new_comps
      else new_comps)"

definition normpath :: "string \<Rightarrow> string" where
  "normpath path =
     (if path = [] then ''.''
      else
        let initial_slashes =
              (if startswith path ''/'' then
                 (if startswith path ''//'' \<and> \<not> startswith path ''///'' then 2 else 1)
               else (0::nat));
            comps = foldl (norm_step initial_slashes) [] (split_sep path);
            p = replicate initial_slashes CHR ''/'' @ join_sep comps
        in if p = [] then ''.'' else p)"

section \<open>Number formatting\<close>

text \<open>\<open>str(n)\<close> of a non-negative integer, and the format \<open>{n:04d}\<close>.\<close>

definition digit_char :: "nat \<Rightarrow> char" where
  "digit_char d = char_of (48 + d)"

fun str_nat :: "nat \<Rightarrow> string" where
  "str_nat n = (if n < 10 then [digit_char n] else str_nat (n div 10) @ [digit_char (n mod 10)])"

declare str_nat.simps [simp del]

definition fmt_04d :: "nat \<Rightarrow> string" where
  "fmt_04d n = replicate (4 - length (str_nat n)) CHR ''0'' @ str_nat n"

section \<open>The file system as the program sees it\<close>

text \<open>
  A directory is seen as the list of its entries, in the order in which the
  operating system lists them; an entry is a file or a directory with its own
  entries.
\<close>

datatype node = File string | Dir string "node list"

fun node_name :: "node \<Rightarrow> string" where
  "node_name (File n) = n"
| "node_name (Dir n sub) = n"

fun is_dir :: "node \<Rightarrow> bool" where
  "is_dir (File n) = False"
| "is_dir (Dir n sub) = True"

datatype error = MakedirsError | ListdirError | CopyError | IndexError

text \<open>
  The primitives the program calls, over a state \<open>'fs\<close> of the file system that
  is left abstract. \<open>None\<close> stands for a raised exception.
  \<^item> \<open>makedirs p\<close> is \<open>os.makedirs(p, exist_ok=True)\<close>;
  \<^item> \<open>scandir p\<close> gives the entries of the directory \<open>p\<close>, \<open>None\<close> when \<open>p\<close>
    cannot be listed;
  \<^item> \<open>copy2 src dst\<close> is \<open>shutil.copy2(src, dst)\<close>.
\<close>

record 'fs os_iface =
  makedirs :: "string \<Rightarrow> 'fs \<Rightarrow> 'fs option"
  scandir :: "string \<Rightarrow> 'fs \<Rightarrow> node list option"
  copy2 :: "string \<Rightarrow> string \<Rightarrow> 'fs \<Rightarrow> 'fs option"

text \<open>\<open>os.listdir(p)\<close>: the names of the entries, files and directories alike.\<close>

definition os_listdir :: "'fs os_iface \<Rightarrow> string \<Rightarrow> 'fs \<Rightarrow> string list option" where
  "os_listdir os p s = map_option (map node_name) (scandir os p s)"

text \<open>
  \<open>os.walk(top)\<close>, top-down: the triple \<open>(root, dirs, files)\<close> of the directory
  itself, then the walk of each of its sub-directories in turn under the root
  \<open>join(top, name)\<close>. A directory that cannot be listed yields nothing (the
  default \<open>onerror=None\<close>).
\<close>

fun walk :: "string \<Rightarrow> node list \<Rightarrow> (string \<times> string list \<times> string list) list"
  and walk_subdirs :: "string \<Rightarrow> node list \<Rightarrow> (string \<times> string list \<times> string list) list"
where
  "walk topdir entries =
     (topdir, map node_name (filter is_dir entries),
           map node_name (filter (\<lambda>e. \<not> is_dir e) entries))
     # walk_subdirs topdir entries"
| "walk_subdirs topdir [] = []"
| "walk_subdirs topdir (File n # es) = walk_subdirs topdir es"
| "walk_subdirs topdir (Dir d sub # es) = walk (join topdir d) sub @ walk_subdirs topdir es"

definition os_walk ::
  "'fs os_iface \<Rightarrow> string \<Rightarrow> 'fs \<Rightarrow> (string \<times> string list \<times> string list) list" where
  "os_walk os topdir s = (case scandir os topdir s of None \<Rightarrow> [] | Some entries \<Rightarrow> walk topdir entries)"

section \<open>The candidate index\<close>

text \<open>
  \<open>folder1_dict\<close> and \<open>folder2_dict\<close>: only lookups and membership tests are made
  on them, so a dictionary is a map from identifiers to lists of paths.
  \<open>index_file\<close> is the body of the inner loop (lines 33 to 38),
  \<open>index_files\<close> the loop over the files of one directory, \<open>index_walk\<close> the loop
  over the triples of \<open>os.walk\<close>.
\<close>

type_synonym index = "string \<rightharpoonup> string list"

definition index_file :: "string \<Rightarrow> string \<Rightarrow> index \<Rightarrow> index" where
  "index_file root file d =
     (if endswith (lower file) ''.jpg'' then
        (let truncated_id = extract_identifier file
         in if truthy truncated_id then
              (case truncated_id of
                 None \<Rightarrow> d
               | Some tid \<Rightarrow>
                   (case d tid of
                      None \<Rightarrow> d(tid \<mapsto> [join root file])
                    | Some paths \<Rightarrow> d(tid \<mapsto> paths @ [join root file])))
            else d)
      else d)"

fun index_files :: "string \<Rightarrow> string list \<Rightarrow> index \<Rightarrow> index" where
  "index_files root [] d = d"
| "index_files root (file # files) d = index_files root files (index_file root file d)"

fun index_walk :: "(string \<times> string list \<times> string list) list \<Rightarrow> index \<Rightarrow> index" where
  "index_walk [] d = d"
| "index_walk ((root, dirs, files) # rest) d = index_walk rest (index_files root files d)"

definition build_index :: "(string \<times> string list \<times> string list) list \<Rightarrow> index" where
  "build_index w = index_walk w Map.empty"

section \<open>Matching and copying\<close>

text \<open>
  The state of the pass: the file system, the counter \<open>matches_found\<close>, the
  calls of \<open>shutil.copy2\<close> that have returned, as pairs of source and
  destination path in the order of the calls, and the lines printed so far.
\<close>

record 'fs run_state =
  filesystem :: 'fs
  matches_found :: nat
  copied :: "(string \<times> string) list"
  printed :: "string list"

definition print :: "string \<Rightarrow> 'fs run_state \<Rightarrow> 'fs run_state" where
  "print line st = st\<lparr>printed := printed st @ [line]\<rparr>"

definition copy_file ::
  "'fs os_iface \<Rightarrow> string \<Rightarrow> string \<Rightarrow> 'fs run_state \<Rightarrow> error + 'fs run_state" where
  "copy_file os src dst st =
     (case copy2 os src dst (filesystem st) of
        None \<Rightarrow> Inl CopyError
      | Some s \<Rightarrow> Inr (st\<lparr>filesystem := s, copied := copied st @ [(src, dst)]\<rparr>))"

definition bind_err :: "error + 'a \<Rightarrow> ('a \<Rightarrow> error + 'b) \<Rightarrow> error + 'b" where
  "bind_err r f = (case r of Inl e \<Rightarrow> Inl e | Inr x \<Rightarrow> f x)"

text \<open>The three new file names (lines 70 to 80).\<close>

definition new_source_name :: "nat \<Rightarrow> string \<Rightarrow> string \<Rightarrow> string" where
  "new_source_name index source_folder source_path =
     (let source_folder_name = basename (normpath source_folder)
      in fmt_04d index @ ''_1_'' @ source_folder_name @ ''_'' @ basename source_path)"

definition new_folder1_name :: "nat \<Rightarrow> string \<Rightarrow> string" where
  "new_folder1_name index folder1_path =
     (let folder1_name = basename (normpath (dirname folder1_path))
      in fmt_04d index @ ''_2_'' @ folder1_name @ ''_'' @ basename folder1_path)"

definition new_folder2_name :: "nat \<Rightarrow> string \<Rightarrow> string" where
  "new_folder2_name index folder2_path =
     (let folder2_name = basename (normpath (dirname folder2_path))
      in fmt_04d index @ ''_3_'' @ folder2_name @ ''_'' @ basename folder2_path)"

text \<open>
  The branch of a full match (lines 62 to 88), given the two lists found in the
  dictionaries. Indexing an empty list with \<open>[0]\<close> raises \<open>IndexError\<close>.
\<close>

definition copy_group ::
  "'fs os_iface \<Rightarrow> string \<Rightarrow> string \<Rightarrow> nat \<Rightarrow> string \<Rightarrow> string \<Rightarrow> string list \<Rightarrow> string list
     \<Rightarrow> 'fs run_state \<Rightarrow> error + 'fs run_state" where
  "copy_group os source_folder destination_folder index source_path truncated_id paths1 paths2 st =
     (case paths1 of
        [] \<Rightarrow> Inl IndexError
      | folder1_path # rest1 \<Rightarrow>
     (case paths2 of
        [] \<Rightarrow> Inl IndexError
      | folder2_path # rest2 \<Rightarrow>
          (let st1 = (if length paths1 > 1 \<or> length paths2 > 1
                      then print (''Multiple matches found for '' @ truncated_id
                                  @ '', using the first one from each folder'') st
                      else st)
           in bind_err (copy_file os source_path
                          (join destination_folder
                             (new_source_name index source_folder source_path)) st1) (\<lambda>st2.
              bind_err (copy_file os folder1_path
                          (join destination_folder (new_folder1_name index folder1_path)) st2) (\<lambda>st3.
              bind_err (copy_file os folder2_path
                          (join destination_folder (new_folder2_name index folder2_path)) st3) (\<lambda>st4.
              Inr (print (''Matched and copied files with truncated identifier: '' @ truncated_id)
                     (st4\<lparr>matches_found := matches_found st4 + 1\<rparr>))))))))"

text \<open>The body of the main loop for one source file (lines 53 to 90).\<close>

definition process_file ::
  "'fs os_iface \<Rightarrow> string \<Rightarrow> string \<Rightarrow> index \<Rightarrow> index \<Rightarrow> nat \<Rightarrow> string
     \<Rightarrow> 'fs run_state \<Rightarrow> error + 'fs run_state" where
  "process_file os source_folder destination_folder folder1_dict folder2_dict index source_file st =
     (let source_path = join source_folder source_file;
          truncated_id = extract_identifier source_file
      in if \<not> truthy truncated_id
         then Inr (print (''Could not extract identifier from '' @ source_file) st)
         else
           (case truncated_id of
              None \<Rightarrow> Inr (print (''Could not extract identifier from '' @ source_file) st)
            | Some tid \<Rightarrow>
                (case folder1_dict tid of
                   None \<Rightarrow> Inr (print (''No match found for truncated identifier: '' @ tid) st)
                 | Some paths1 \<Rightarrow>
                (case folder2_dict tid of
                   None \<Rightarrow> Inr (print (''No match found for truncated identifier: '' @ tid) st)
                 | Some paths2 \<Rightarrow>
                     copy_group os source_folder destination_folder index source_path tid
                       paths1 paths2 st))))"

text \<open>The main loop over \<open>enumerate(source_files)\<close>; an exception ends it.\<close>

fun match_loop ::
  "'fs os_iface \<Rightarrow> string \<Rightarrow> string \<Rightarrow> index \<Rightarrow> index \<Rightarrow> (nat \<times> string) list
     \<Rightarrow> 'fs run_state \<Rightarrow> error + 'fs run_state" where
  "match_loop os source_folder destination_folder folder1_dict folder2_dict [] st = Inr st"
| "match_loop os source_folder destination_folder folder1_dict folder2_dict
     ((index, source_file) # rest) st =
     (case process_file os source_folder destination_folder folder1_dict folder2_dict
             index source_file st of
        Inl e \<Rightarrow> Inl e
      | Inr st' \<Rightarrow>
          match_loop os source_folder destination_folder folder1_dict folder2_dict rest st')"

text \<open>
  \<open>source_files\<close> (line 27): \<open>sorted\<close> compares strings character by character,
  which is the lexicographic order of \<^typ>\<open>string\<close>.
\<close>

definition source_files_of :: "string list \<Rightarrow> string list" where
  "source_files_of listing = filter (\<lambda>f. endswith (lower f) ''.jpg'') (sort listing)"

definition find_matching_images ::
  "'fs os_iface \<Rightarrow> string \<Rightarrow> string \<Rightarrow> string \<Rightarrow> string \<Rightarrow> 'fs \<Rightarrow> error + 'fs run_state" where
  "find_matching_images os source_folder folder1 folder2 destination_folder s0 =
     (case makedirs os destination_folder s0 of
        None \<Rightarrow> Inl MakedirsError
      | Some s1 \<Rightarrow>
     (case os_listdir os source_folder s1 of
        None \<Rightarrow> Inl ListdirError
      | Some listing \<Rightarrow>
          (let source_files = source_files_of listing;
               folder1_dict = build_index (os_walk os folder1 s1);
               folder2_dict = build_index (os_walk os folder2 s1)
           in bind_err
                (match_loop os source_folder destination_folder folder1_dict folder2_dict
                   (enumerate 0 source_files)
                   \<lparr>filesystem = s1, matches_found = 0, copied = [], printed = []\<rparr>)
                (\<lambda>st. Inr (print (''Total matches found and processed: ''
                                   @ str_nat (matches_found st)) st)))))"

section \<open>Notions used in the statements\<close>

text \<open>
  The paths that the files of one directory, and of a whole walk, contribute to
  the identifier \<open>k\<close>, in the order of the walk; the list of an index at a key,
  empty when the key is absent; and the files found under a directory at any
  depth, each with the path of the directory that holds it.
\<close>

definition hits :: "string \<Rightarrow> string \<Rightarrow> string list \<Rightarrow> string list" where
  "hits k root files =
     map (join root)
       (filter (\<lambda>file. endswith (lower file) ''.jpg'' \<and> extract_identifier file = Some k) files)"

definition paths_for :: "string \<Rightarrow> (string \<times> string list \<times> string list) list \<Rightarrow> string list" where
  "paths_for k w = concat (map (\<lambda>(root, dirs, files). hits k root files) w)"

definition entries_of :: "index \<Rightarrow> string \<Rightarrow> string list" where
  "entries_of d k = (case d k of None \<Rightarrow> [] | Some paths \<Rightarrow> paths)"



text \<open>
  A source file whose identifier is a key of both indices; the three copies of
  a match group; the copies that one source file gives rise to; and the lines
  printed for a file with an identifier.
\<close>

definition in_both :: "index \<Rightarrow> index \<Rightarrow> string \<Rightarrow> bool" where
  "in_both d1 d2 f =
     (case extract_identifier f of
        None \<Rightarrow> False
      | Some tid \<Rightarrow> d1 tid \<noteq> None \<and> d2 tid \<noteq> None)"

definition group_copies ::
  "string \<Rightarrow> string \<Rightarrow> nat \<Rightarrow> string \<Rightarrow> string \<Rightarrow> string \<Rightarrow> (string \<times> string) list" where
  "group_copies sf dest i f p1 p2 =
     [(join sf f, join dest (new_source_name i sf (join sf f))),
      (p1, join dest (new_folder1_name i p1)),
      (p2, join dest (new_folder2_name i p2))]"

definition expected_copies ::
  "string \<Rightarrow> string \<Rightarrow> index \<Rightarrow> index \<Rightarrow> nat \<times> string \<Rightarrow> (string \<times> string) list" where
  "expected_copies sf dest d1 d2 x =
     (case x of (i, f) \<Rightarrow>
        (case extract_identifier f of
           None \<Rightarrow> []
         | Some tid \<Rightarrow>
             (case d1 tid of
                Some (p1 # r1) \<Rightarrow>
                  (case d2 tid of
                     Some (p2 # r2) \<Rightarrow> group_copies sf dest i f p1 p2
                   | _ \<Rightarrow> [])
              | _ \<Rightarrow> [])))"

definition notice :: "string \<Rightarrow> string" where
  "notice tid = ''Multiple matches found for '' @ tid @ '', using the first one from each folder''"

definition matched_line :: "string \<Rightarrow> string" where
  "matched_line tid = ''Matched and copied files with truncated identifier: '' @ tid"

definition no_match_line :: "string \<Rightarrow> string" where
  "no_match_line tid = ''No match found for truncated identifier: '' @ tid"

text \<open>The number that a string of decimal digits denotes.\<close>

definition digit_val :: "char \<Rightarrow> nat" where
  "digit_val c = of_char c - 48"

definition nat_of_digits :: "string \<Rightarrow> nat" where
  "nat_of_digits s = foldl (\<lambda>a c. 10 * a + digit_val c) 0 s"

text \<open>
  What \<open>join\<close> puts in front of a relative name, and the index and slot
  character read back from a destination path once that prefix is skipped.
\<close>

definition sep_prefix :: "string \<Rightarrow> string" where
  "sep_prefix a = (if a = [] \<or> endswith a ''/'' then a else a @ ''/'')"

definition dest_key :: "nat \<Rightarrow> string \<Rightarrow> nat \<times> char" where
  "dest_key n dst =
     (let name = drop n dst; ds = takeWhile is_digit name
      in (nat_of_digits ds, name ! (length ds + 1)))"


text \<open>
  A small file system on which the statements below are instantiated: a source
  folder with a sub-directory, a first folder whose images lie one level down,
  and a second folder. Every primitive succeeds, and the state is trivial.
\<close>

definition demo_os :: "unit os_iface" where
  "demo_os =
     \<lparr>makedirs = (\<lambda>p s. Some s),
      scandir = (\<lambda>p s.
        if p = ''src'' then
          Some [File ''b_00010001.jpg'', File ''a_00020002.jpg'', File ''photo_final.jpg'',
                File ''z1.JPG'', File ''q99.jpg'', Dir ''deep'' [File ''c_00030003.jpg'']]
        else if p = ''f1'' then
          Some [File ''n.txt'', Dir ''sub'' [File ''x00012345.jpg'', File ''y00011111.jpg'']]
        else if p = ''f2'' then Some [File ''w00055555.jpg'']
        else None),
      copy2 = (\<lambda>src dst s. Some s)\<rparr>"

section \<open>What the regular expression finds\<close>

lemma is_digit_dot [simp]: "\<not> is_digit CHR ''.''"
  by (simp add: is_digit_def)

lemma backtrack_below:
  "k \<le> length (takeWhile is_digit s) \<Longrightarrow> backtrack k s =
     (if k = 0 then None
      else if k = length (takeWhile is_digit s) then match_with k s else None)"
proof (induction k)
  case 0
  then show ?case by simp
next
  case (Suc k)
  show ?case
  proof (cases "Suc k = length (takeWhile is_digit s)")
    case True
    have "backtrack k s = None" using Suc True by (auto split: if_splits)
    then have "backtrack (Suc k) s = match_with (Suc k) s" by (simp split: option.splits)
    then show ?thesis by (simp add: True [symmetric])
  next
    case False
    then have lt: "Suc k < length (takeWhile is_digit s)" using Suc.prems by simp
    then have "is_digit (takeWhile is_digit s ! Suc k)"
      using nth_mem set_takeWhileD by metis
    then have d: "is_digit (s ! Suc k)" using lt by (simp add: takeWhile_nth)
    have "Suc k < length s" using lt length_takeWhile_le[of is_digit s] by simp
    then have "hd (drop (Suc k) s) = s ! Suc k" by (simp add: hd_drop_conv_nth)
    then have "take 4 (drop (Suc k) s) \<noteq> ''.jpg''"
      using d \<open>Suc k < length s\<close>
      by (cases "drop (Suc k) s") auto
    then have "match_with (Suc k) s = None" by (simp add: match_with_def)
    then show ?thesis using Suc False by (auto split: if_splits)
  qed
qed

lemma match_here_eq:
  "match_here s =
     (if takeWhile is_digit s \<noteq> [] \<and> (\<exists>t. dropWhile is_digit s = ''.jpg'' @ t \<and> at_dollar t)
      then Some (takeWhile is_digit s) else None)"
proof -
  let ?n = "length (takeWhile is_digit s)"
  have d: "drop ?n s = dropWhile is_digit s" by (rule dropWhile_eq_drop [symmetric])
  have t: "take ?n s = takeWhile is_digit s" by (rule takeWhile_eq_take [symmetric])
  have e: "(take 4 (dropWhile is_digit s) = ''.jpg'' \<and> at_dollar (drop 4 (dropWhile is_digit s)))
       = (\<exists>t. dropWhile is_digit s = ''.jpg'' @ t \<and> at_dollar t)" (is "?l = ?r")
  proof
    assume ?l
    then have "dropWhile is_digit s = ''.jpg'' @ drop 4 (dropWhile is_digit s)"
      using append_take_drop_id[of 4 "dropWhile is_digit s"] by simp
    with \<open>?l\<close> show ?r by blast
  next
    assume ?r then show ?l by auto
  qed
  have dd: "drop (?n + 4) s = drop 4 (dropWhile is_digit s)"
    using d by (metis add.commute drop_drop)
  show ?thesis
    unfolding match_here_def
    by (simp add: backtrack_below match_with_def d t dd e)
qed

lemma match_here_SomeD:
  "match_here s = Some g \<Longrightarrow>
     \<exists>t. s = g @ ''.jpg'' @ t \<and> at_dollar t \<and> g \<noteq> [] \<and> list_all is_digit g"
proof -
  assume a: "match_here s = Some g"
  then have g: "g = takeWhile is_digit s" and ne: "g \<noteq> []"
    and ex: "\<exists>t. dropWhile is_digit s = ''.jpg'' @ t \<and> at_dollar t"
    by (auto simp: match_here_eq split: if_splits)
  then obtain t where t: "dropWhile is_digit s = ''.jpg'' @ t" "at_dollar t" by blast
  have "s = g @ ''.jpg'' @ t" using g t takeWhile_dropWhile_id[of is_digit s] by simp
  moreover have "list_all is_digit g" unfolding g list_all_iff by (auto dest: set_takeWhileD)
  ultimately show ?thesis using t ne by blast
qed

lemma jpg_tail_unique:
  assumes "g @ ''.jpg'' @ t' = q @ ''.jpg'' @ t" "at_dollar t" "at_dollar t'"
  shows "t = t' \<and> g = q"
proof -
  have "last (g @ ''.jpg'' @ t') = last (q @ ''.jpg'' @ t)" using assms(1) by simp
  then have "t = t'" using assms(2,3) by (auto simp: at_dollar_def)
  then show ?thesis using assms(1) by simp
qed

lemma re_search_SomeD:
  "re_search s = Some g \<Longrightarrow>
     \<exists>p t. s = p @ g @ ''.jpg'' @ t \<and> at_dollar t \<and> g \<noteq> [] \<and> list_all is_digit g"
proof (induction s)
  case Nil
  then show ?case by (auto dest: match_here_SomeD)
next
  case (Cons c cs)
  show ?case
  proof (cases "match_here (c # cs)")
    case None
    then have "re_search cs = Some g" using Cons.prems by simp
    then obtain p t where "cs = p @ g @ ''.jpg'' @ t \<and> at_dollar t \<and> g \<noteq> [] \<and> list_all is_digit g"
      using Cons.IH by blast
    then have "c # cs = (c # p) @ g @ ''.jpg'' @ t \<and> at_dollar t \<and> g \<noteq> [] \<and> list_all is_digit g"
      by simp
    then show ?thesis by blast
  next
    case (Some a)
    then have "match_here (c # cs) = Some g" using Cons.prems by simp
    from match_here_SomeD[OF this] show ?thesis by (metis append_Nil)
  qed
qed

lemma re_search_complete:
  assumes "at_dollar t" "D \<noteq> []" "list_all is_digit D" "p = [] \<or> \<not> is_digit (last p)"
  shows "re_search (p @ D @ ''.jpg'' @ t) = Some D"
  using assms(4)
proof (induction p)
  case Nil
  have tw: "takeWhile is_digit (D @ ''.jpg'' @ t) = D"
    using assms(3) by (simp add: takeWhile_append2 list_all_iff)
  have dw: "dropWhile is_digit (D @ ''.jpg'' @ t) = ''.jpg'' @ t"
    using assms(3) by (simp add: dropWhile_append2 list_all_iff)
  have "match_here (D @ ''.jpg'' @ t) = Some D"
    using assms(1,2) by (simp only: match_here_eq tw dw) auto
  then show ?case using assms(2) by (cases D) auto
next
  case (Cons c p)
  have nd: "\<not> is_digit (last (c # p))" using Cons.prems by simp
  have "match_here (c # p @ D @ ''.jpg'' @ t) = None"
  proof (rule ccontr)
    assume "match_here (c # p @ D @ ''.jpg'' @ t) \<noteq> None"
    then obtain g where "match_here (c # p @ D @ ''.jpg'' @ t) = Some g" by blast
    from match_here_SomeD[OF this] obtain t' where
      e: "c # p @ D @ ''.jpg'' @ t = g @ ''.jpg'' @ t'" and t': "at_dollar t'"
      and g: "list_all is_digit g" by blast
    have "g @ ''.jpg'' @ t' = ((c # p) @ D) @ ''.jpg'' @ t" using e by simp
    from jpg_tail_unique[OF this assms(1) t'] have "g = (c # p) @ D" by simp
    then have "is_digit (last (c # p))" using g by (simp add: list_all_iff)
    then show False using nd by simp
  qed
  moreover have "p = [] \<or> \<not> is_digit (last p)" using nd by (cases p) auto
  ultimately show ?case using Cons.IH by simp
qed

lemma extract_identifier_complete:
  assumes "at_dollar t" "D \<noteq> []" "list_all is_digit D" "p = [] \<or> \<not> is_digit (last p)"
  shows "extract_identifier (p @ D @ ''.jpg'' @ t)
           = Some (if 5 < length D then take (length D - 5) D else D)"
  using re_search_complete [OF assms] by (simp add: extract_identifier_def)

lemma extract_identifier_SomeD:
  assumes "extract_identifier f = Some s"
  shows "\<exists>p D t. f = p @ D @ ''.jpg'' @ t \<and> at_dollar t \<and> D \<noteq> [] \<and> list_all is_digit D
           \<and> s = (if 5 < length D then take (length D - 5) D else D)"
proof -
  from assms obtain D where D: "re_search f = Some D"
    and s: "s = (if 5 < length D then take (length D - 5) D else D)"
    by (auto simp: extract_identifier_def split: option.splits if_splits)
  from re_search_SomeD [OF D] s show ?thesis by blast
qed

lemma extract_identifier_digits:
  assumes "extract_identifier f = Some s"
  shows "s \<noteq> [] \<and> list_all is_digit s"
proof -
  from extract_identifier_SomeD [OF assms] obtain D where D: "D \<noteq> []" "list_all is_digit D"
    and s: "s = (if 5 < length D then take (length D - 5) D else D)" by blast
  have "set (take (length D - 5) D) \<subseteq> set D" by (rule set_take_subset)
  then have "list_all is_digit s" using D(2) s by (auto simp: list_all_iff)
  moreover have "s \<noteq> []" using D(1) s by auto
  ultimately show ?thesis by simp
qed

section \<open>The candidate index and the walk\<close>

lemma truthy_extract: "truthy (extract_identifier f) = (extract_identifier f \<noteq> None)"
proof (cases "extract_identifier f")
  case None then show ?thesis by simp
next
  case (Some s)
  with extract_identifier_digits [OF Some] show ?thesis by simp
qed

lemma index_file_entries:
  "entries_of (index_file root file d) k = entries_of d k @ hits k root [file]"
  by (auto simp: index_file_def entries_of_def hits_def truthy_extract Let_def
           split: option.splits)

lemma index_file_None:
  "(index_file root file d k = None) = (d k = None \<and> hits k root [file] = [])"
  by (auto simp: index_file_def hits_def truthy_extract Let_def split: option.splits)

lemma hits_Cons: "hits k root (f # fs) = hits k root [f] @ hits k root fs"
  by (simp add: hits_def)

lemma index_files_entries:
  "entries_of (index_files root files d) k = entries_of d k @ hits k root files"
proof (induction files arbitrary: d)
  case Nil
  then show ?case by (simp add: hits_def)
next
  case (Cons f fs)
  show ?case
    by (simp only: index_files.simps Cons.IH index_file_entries hits_Cons [of k root f fs]
          append_assoc)
qed

lemma index_files_None:
  "(index_files root files d k = None) = (d k = None \<and> hits k root files = [])"
proof (induction files arbitrary: d)
  case Nil
  then show ?case by (simp add: hits_def)
next
  case (Cons f fs)
  show ?case
    by (simp only: index_files.simps Cons.IH index_file_None hits_Cons [of k root f fs])
       auto
qed

lemma index_walk_entries:
  "entries_of (index_walk w d) k = entries_of d k @ paths_for k w"
proof (induction w arbitrary: d)
  case Nil
  then show ?case by (simp add: paths_for_def)
next
  case (Cons t w)
  obtain root dirs files where t: "t = (root, dirs, files)" by (cases t) auto
  show ?case by (simp add: t Cons.IH index_files_entries paths_for_def)
qed

lemma index_walk_None:
  "(index_walk w d k = None) = (d k = None \<and> paths_for k w = [])"
proof (induction w arbitrary: d)
  case Nil
  then show ?case by (simp add: paths_for_def)
next
  case (Cons t w)
  obtain root dirs files where t: "t = (root, dirs, files)" by (cases t) auto
  show ?case by (auto simp add: t Cons.IH index_files_None paths_for_def)
qed

lemma build_index_eq:
  "build_index w k = (if paths_for k w = [] then None else Some (paths_for k w))"
proof (cases "build_index w k")
  case None
  then show ?thesis using index_walk_None [of w Map.empty k] by (simp add: build_index_def)
next
  case (Some ps)
  have "entries_of (build_index w) k = paths_for k w"
    using index_walk_entries [of w Map.empty k] by (simp add: build_index_def entries_of_def)
  then have "ps = paths_for k w" using Some by (simp add: entries_of_def)
  moreover have "paths_for k w \<noteq> []"
    using Some index_walk_None [of w Map.empty k] by (simp add: build_index_def)
  ultimately show ?thesis using Some by simp
qed

lemma build_index_nonempty: "build_index w k \<noteq> Some []"
  by (simp add: build_index_eq)





lemma index_file_skip:
  assumes "\<not> endswith (lower file) ''.jpg'' \<or> extract_identifier file = None"
  shows "index_file root file d = d"
  using assms by (auto simp: index_file_def)

section \<open>The steps of the main loop\<close>

lemma copy_file_Inr:
  assumes "copy_file os a b st = Inr st'"
  shows "copied st' = copied st @ [(a, b)]" "matches_found st' = matches_found st"
    "printed st' = printed st"
  using assms by (auto simp: copy_file_def split: option.splits)

lemma copy_file_total:
  assumes "\<forall>a b s. copy2 os a b s \<noteq> None"
  shows "\<exists>st'. copy_file os a b st = Inr st'"
  using assms by (auto simp: copy_file_def split: option.splits)

lemma bind_err_Inr: "(bind_err r f = Inr y) = (\<exists>x. r = Inr x \<and> f x = Inr y)"
  by (cases r) (auto simp: bind_err_def)

lemma copy_group_unfold:
  "copy_group os sf dest i sp tid (p1 # r1) (p2 # r2) st =
     bind_err (copy_file os sp (join dest (new_source_name i sf sp))
                 (if r1 \<noteq> [] \<or> r2 \<noteq> [] then print (notice tid) st else st)) (\<lambda>st2.
     bind_err (copy_file os p1 (join dest (new_folder1_name i p1)) st2) (\<lambda>st3.
     bind_err (copy_file os p2 (join dest (new_folder2_name i p2)) st3) (\<lambda>st4.
     Inr (print (matched_line tid) (st4\<lparr>matches_found := matches_found st4 + 1\<rparr>)))))"
  by (simp add: copy_group_def notice_def matched_line_def Let_def)

lemma copy_group_Inr:
  assumes "copy_group os sf dest i (join sf f) tid (p1 # r1) (p2 # r2) st = Inr st'"
  shows "copied st' = copied st @ group_copies sf dest i f p1 p2"
    "matches_found st' = matches_found st + 1"
    "printed st' = printed st @ (if r1 \<noteq> [] \<or> r2 \<noteq> [] then [notice tid] else [])
                     @ [matched_line tid]"
proof -
  let ?st1 = "if r1 \<noteq> [] \<or> r2 \<noteq> [] then print (notice tid) st else st"
  from assms obtain st2 st3 st4 where
    c1: "copy_file os (join sf f) (join dest (new_source_name i sf (join sf f))) ?st1 = Inr st2"
    and c2: "copy_file os p1 (join dest (new_folder1_name i p1)) st2 = Inr st3"
    and c3: "copy_file os p2 (join dest (new_folder2_name i p2)) st3 = Inr st4"
    and e: "st' = print (matched_line tid) (st4\<lparr>matches_found := matches_found st4 + 1\<rparr>)"
    unfolding copy_group_unfold bind_err_Inr by auto
  have s1: "copied ?st1 = copied st" "matches_found ?st1 = matches_found st"
    "printed ?st1 = printed st @ (if r1 \<noteq> [] \<or> r2 \<noteq> [] then [notice tid] else [])"
    by (simp_all add: print_def)
  show "copied st' = copied st @ group_copies sf dest i f p1 p2"
    using copy_file_Inr(1) [OF c1] copy_file_Inr(1) [OF c2] copy_file_Inr(1) [OF c3] s1(1) e
    by (simp add: group_copies_def print_def)
  show "matches_found st' = matches_found st + 1"
    using copy_file_Inr(2) [OF c1] copy_file_Inr(2) [OF c2] copy_file_Inr(2) [OF c3] s1(2) e
    by (simp add: print_def)
  show "printed st' = printed st @ (if r1 \<noteq> [] \<or> r2 \<noteq> [] then [notice tid] else [])
                     @ [matched_line tid]"
    using copy_file_Inr(3) [OF c1] copy_file_Inr(3) [OF c2] copy_file_Inr(3) [OF c3] s1(3) e
    by (simp add: print_def)
qed

lemma copy_group_total:
  assumes "\<forall>a b s. copy2 os a b s \<noteq> None"
  shows "\<exists>st'. copy_group os sf dest i sp tid (p1 # r1) (p2 # r2) st = Inr st'"
proof -
  let ?st1 = "if r1 \<noteq> [] \<or> r2 \<noteq> [] then print (notice tid) st else st"
  from copy_file_total [OF assms] obtain st2 where
    c1: "copy_file os sp (join dest (new_source_name i sf sp)) ?st1 = Inr st2" by blast
  from copy_file_total [OF assms] obtain st3 where
    c2: "copy_file os p1 (join dest (new_folder1_name i p1)) st2 = Inr st3" by blast
  from copy_file_total [OF assms] obtain st4 where
    c3: "copy_file os p2 (join dest (new_folder2_name i p2)) st3 = Inr st4" by blast
  show ?thesis unfolding copy_group_unfold using c1 c2 c3 by (simp add: bind_err_def)
qed

lemma process_file_no_identifier:
  assumes "extract_identifier f = None"
  shows "process_file os sf dest d1 d2 i f st
           = Inr (print (''Could not extract identifier from '' @ f) st)"
  using assms by (simp add: process_file_def)

lemma process_file_no_match:
  assumes "extract_identifier f = Some tid" "d1 tid = None \<or> d2 tid = None"
  shows "process_file os sf dest d1 d2 i f st = Inr (print (no_match_line tid) st)"
  using assms extract_identifier_digits [OF assms(1)]
  by (auto simp: process_file_def no_match_line_def split: option.splits)

lemma process_file_match:
  assumes "extract_identifier f = Some tid" "d1 tid = Some paths1" "d2 tid = Some paths2"
  shows "process_file os sf dest d1 d2 i f st
           = copy_group os sf dest i (join sf f) tid paths1 paths2 st"
  using assms extract_identifier_digits [OF assms(1)]
  by (simp add: process_file_def)

lemma print_fields:
  "copied (print l st) = copied st" "matches_found (print l st) = matches_found st"
  "printed (print l st) = printed st @ [l]" "filesystem (print l st) = filesystem st"
  by (simp_all add: print_def)

lemma process_file_Inr:
  assumes "process_file os sf dest d1 d2 i f st = Inr st'"
  shows "copied st' = copied st @ expected_copies sf dest d1 d2 (i, f)"
    and "matches_found st' = matches_found st + (if in_both d1 d2 f then 1 else 0)"
proof -
  have "copied st' = copied st @ expected_copies sf dest d1 d2 (i, f)
      \<and> matches_found st' = matches_found st + (if in_both d1 d2 f then 1 else 0)"
  proof (cases "extract_identifier f")
    case None
    with assms process_file_no_identifier [OF None, of os sf dest d1 d2 i st]
    show ?thesis by (auto simp: expected_copies_def in_both_def print_fields)
  next
    case (Some tid)
    show ?thesis
    proof (cases "d1 tid = None \<or> d2 tid = None")
      case True
      with assms process_file_no_match [of f tid d1 d2 os sf dest i st] Some
      show ?thesis
        by (auto simp: expected_copies_def in_both_def print_fields split: option.splits list.splits)
    next
      case False
      then obtain paths1 paths2 where p: "d1 tid = Some paths1" "d2 tid = Some paths2" by auto
      have cg: "copy_group os sf dest i (join sf f) tid paths1 paths2 st = Inr st'"
        using assms process_file_match [of f tid d1 paths1 d2 paths2 os sf dest i st] Some p
        by simp
      then obtain p1 r1 p2 r2 where l: "paths1 = p1 # r1" "paths2 = p2 # r2"
        by (cases paths1; cases paths2) (auto simp: copy_group_def)
      from copy_group_Inr [OF cg [unfolded l]] Some p l
      show ?thesis by (simp add: expected_copies_def in_both_def)
    qed
  qed
  then show "copied st' = copied st @ expected_copies sf dest d1 d2 (i, f)"
    and "matches_found st' = matches_found st + (if in_both d1 d2 f then 1 else 0)" by simp_all
qed

lemma match_loop_Inr:
  assumes "match_loop os sf dest d1 d2 xs st = Inr st'"
  shows "copied st' = copied st @ concat (map (expected_copies sf dest d1 d2) xs)"
    and "matches_found st' = matches_found st + length (filter (\<lambda>x. in_both d1 d2 (snd x)) xs)"
proof -
  have "copied st' = copied st @ concat (map (expected_copies sf dest d1 d2) xs)
     \<and> matches_found st' = matches_found st + length (filter (\<lambda>x. in_both d1 d2 (snd x)) xs)"
    using assms
  proof (induction xs arbitrary: st)
    case Nil
    then show ?case by simp
  next
    case (Cons x xs)
    obtain i f where x: "x = (i, f)" by (cases x) auto
    from Cons.prems obtain st1 where
      p: "process_file os sf dest d1 d2 i f st = Inr st1"
      and l: "match_loop os sf dest d1 d2 xs st1 = Inr st'"
      by (auto simp: x split: sum.splits)
    from Cons.IH [OF l] process_file_Inr [OF p] show ?case by (simp add: x)
  qed
  then show "copied st' = copied st @ concat (map (expected_copies sf dest d1 d2) xs)"
    and "matches_found st' = matches_found st + length (filter (\<lambda>x. in_both d1 d2 (snd x)) xs)"
    by simp_all
qed

lemma match_loop_append:
  "match_loop os sf dest d1 d2 (xs @ ys) st
     = bind_err (match_loop os sf dest d1 d2 xs st) (match_loop os sf dest d1 d2 ys)"
proof (induction xs arbitrary: st)
  case Nil
  then show ?case by (simp add: bind_err_def)
next
  case (Cons x xs)
  obtain i f where x: "x = (i, f)" by (cases x) auto
  show ?case by (simp add: x Cons.IH bind_err_def split: sum.splits)
qed

lemma process_file_total:
  assumes "\<forall>a b s. copy2 os a b s \<noteq> None" "\<forall>k. d1 k \<noteq> Some []" "\<forall>k. d2 k \<noteq> Some []"
  shows "\<exists>st'. process_file os sf dest d1 d2 i f st = Inr st'"
proof (cases "extract_identifier f")
  case None
  then show ?thesis by (simp add: process_file_no_identifier)
next
  case (Some tid)
  show ?thesis
  proof (cases "d1 tid = None \<or> d2 tid = None")
    case True
    then show ?thesis using process_file_no_match [of f tid d1 d2 os sf dest i st] Some by simp
  next
    case False
    then obtain paths1 paths2 where p: "d1 tid = Some paths1" "d2 tid = Some paths2" by auto
    with assms(2,3) obtain p1 r1 p2 r2 where l: "paths1 = p1 # r1" "paths2 = p2 # r2"
      by (cases paths1; cases paths2) auto
    show ?thesis
      using process_file_match [of f tid d1 paths1 d2 paths2 os sf dest i st] Some p
        copy_group_total [OF assms(1)] l by simp
  qed
qed

lemma match_loop_total:
  assumes "\<forall>a b s. copy2 os a b s \<noteq> None" "\<forall>k. d1 k \<noteq> Some []" "\<forall>k. d2 k \<noteq> Some []"
  shows "\<exists>st'. match_loop os sf dest d1 d2 xs st = Inr st'"
proof (induction xs arbitrary: st)
  case Nil
  then show ?case by simp
next
  case (Cons x xs)
  obtain i f where x: "x = (i, f)" by (cases x) auto
  from process_file_total [OF assms] obtain st1 where
    "process_file os sf dest d1 d2 i f st = Inr st1" by blast
  then show ?case using Cons.IH [of st1] by (simp add: x)
qed

lemma demo_run:
  "find_matching_images demo_os ''src'' ''f1'' ''f2'' ''out'' () =
     Inr \<lparr>filesystem = (), matches_found = 2,
        copied =
          [(''src/a_00020002.jpg'', ''out/0000_1_src_a_00020002.jpg''),
           (''f1/sub/x00012345.jpg'', ''out/0000_2_sub_x00012345.jpg''),
           (''f2/w00055555.jpg'', ''out/0000_3_f2_w00055555.jpg''),
           (''src/b_00010001.jpg'', ''out/0001_1_src_b_00010001.jpg''),
           (''f1/sub/x00012345.jpg'', ''out/0001_2_sub_x00012345.jpg''),
           (''f2/w00055555.jpg'', ''out/0001_3_f2_w00055555.jpg'')],
        printed =
          [''Multiple matches found for 000, using the first one from each folder'',
           ''Matched and copied files with truncated identifier: 000'',
           ''Multiple matches found for 000, using the first one from each folder'',
           ''Matched and copied files with truncated identifier: 000'',
           ''Could not extract identifier from photo_final.jpg'',
           ''No match found for truncated identifier: 99'',
           ''Could not extract identifier from z1.JPG'',
           ''Total matches found and processed: 2'']\<rparr>"
  by code_simp

lemma in_both_iff:
  "in_both d1 d2 f = (\<exists>tid. extract_identifier f = Some tid \<and> tid \<in> dom d1 \<and> tid \<in> dom d2)"
  by (auto simp: in_both_def split: option.splits)

lemma process_file_not_in_both:
  assumes "\<not> in_both d1 d2 f"
  shows "process_file os sf dest d1 d2 i f st =
           Inr (print (case extract_identifier f of
                         None \<Rightarrow> ''Could not extract identifier from '' @ f
                       | Some tid \<Rightarrow> ''No match found for truncated identifier: '' @ tid) st)"
proof (cases "extract_identifier f")
  case None
  then show ?thesis by (simp add: process_file_no_identifier)
next
  case (Some tid)
  then have "d1 tid = None \<or> d2 tid = None" using assms by (auto simp: in_both_def)
  then show ?thesis
    using process_file_no_match [of f tid d1 d2 os sf dest i st] Some
    by (simp add: no_match_line_def)
qed

lemma process_file_in_both:
  assumes "in_both d1 d2 f" "process_file os sf dest d1 d2 i f st = Inr st'"
  shows "\<exists>tid p1 r1 p2 r2. extract_identifier f = Some tid \<and> d1 tid = Some (p1 # r1)
           \<and> d2 tid = Some (p2 # r2)
           \<and> copied st' = copied st @ group_copies sf dest i f p1 p2
           \<and> matches_found st' = matches_found st + 1"
proof -
  from assms(1) obtain tid paths1 paths2 where
    t: "extract_identifier f = Some tid" and p: "d1 tid = Some paths1" "d2 tid = Some paths2"
    by (auto simp: in_both_def split: option.splits)
  have cg: "copy_group os sf dest i (join sf f) tid paths1 paths2 st = Inr st'"
    using assms(2) process_file_match [of f tid d1 paths1 d2 paths2 os sf dest i st] t p by simp
  then obtain p1 r1 p2 r2 where l: "paths1 = p1 # r1" "paths2 = p2 # r2"
    by (cases paths1; cases paths2) (auto simp: copy_group_def)
  from copy_group_Inr(1,2) [OF cg [unfolded l]] t p l show ?thesis by blast
qed

lemma build_index_total:
  assumes "\<forall>a b s. copy2 os a b s \<noteq> None"
  shows "\<exists>st'. process_file os sf dest (build_index w1) (build_index w2) i f st = Inr st'"
  using process_file_total [OF assms, of "build_index w1" "build_index w2"]
  by (simp add: build_index_nonempty)

lemma notice_not_matched: "notice tid \<noteq> matched_line tid"
  by (simp add: notice_def matched_line_def)

lemma expected_copies_length:
  "length (expected_copies sf dest d1 d2 x) = 0 \<or> length (expected_copies sf dest d1 d2 x) = 3"
  by (cases x) (auto simp: expected_copies_def group_copies_def split: option.splits list.splits)

lemma process_file_Inr_length:
  assumes "process_file os sf dest d1 d2 i f st = Inr st'"
  shows "length (copied st') = length (copied st) + (if in_both d1 d2 f then 3 else 0)"
proof (cases "in_both d1 d2 f")
  case True
  from process_file_in_both [OF True assms] show ?thesis using True
    by (auto simp: group_copies_def)
next
  case False
  then show ?thesis using assms process_file_not_in_both [OF False, of os sf dest i st]
    by (auto simp: print_fields)
qed

lemma match_loop_Inr_length:
  assumes "match_loop os sf dest d1 d2 xs st = Inr st'"
  shows "length (copied st')
           = length (copied st) + 3 * length (filter (\<lambda>x. in_both d1 d2 (snd x)) xs)"
  using assms
proof (induction xs arbitrary: st)
  case Nil
  then show ?case by simp
next
  case (Cons x xs)
  obtain i f where x: "x = (i, f)" by (cases x) auto
  from Cons.prems obtain st1 where
    p: "process_file os sf dest d1 d2 i f st = Inr st1"
    and l: "match_loop os sf dest d1 d2 xs st1 = Inr st'"
    by (auto simp: x split: sum.splits)
  from Cons.IH [OF l] process_file_Inr_length [OF p] show ?case by (simp add: x)
qed

lemma find_matching_images_Inr:
  assumes "find_matching_images os sf f1 f2 dest s0 = Inr st"
  shows "\<exists>s1 es st1. makedirs os dest s0 = Some s1 \<and> scandir os sf s1 = Some es
           \<and> match_loop os sf dest (build_index (os_walk os f1 s1)) (build_index (os_walk os f2 s1))
                (enumerate 0 (source_files_of (map node_name es)))
                \<lparr>filesystem = s1, matches_found = 0, copied = [], printed = []\<rparr> = Inr st1
           \<and> st = print (''Total matches found and processed: '' @ str_nat (matches_found st1)) st1"
  using assms
  by (auto simp: find_matching_images_def os_listdir_def bind_err_Inr Let_def
           split: option.splits)

lemma find_matching_images_total:
  assumes "makedirs os dest s0 \<noteq> None" "\<forall>s. scandir os sf s \<noteq> None"
    "\<forall>a b s. copy2 os a b s \<noteq> None"
  shows "\<exists>st. find_matching_images os sf f1 f2 dest s0 = Inr st"
proof -
  from assms(1) obtain s1 where m: "makedirs os dest s0 = Some s1" by auto
  from assms(2) obtain es where e: "scandir os sf s1 = Some es" by auto
  from match_loop_total [OF assms(3), of "build_index (os_walk os f1 s1)"
      "build_index (os_walk os f2 s1)" sf dest "enumerate 0 (source_files_of (map node_name es))"
      "\<lparr>filesystem = s1, matches_found = 0, copied = [], printed = []\<rparr>"]
  obtain st1 where "match_loop os sf dest (build_index (os_walk os f1 s1))
      (build_index (os_walk os f2 s1)) (enumerate 0 (source_files_of (map node_name es)))
      \<lparr>filesystem = s1, matches_found = 0, copied = [], printed = []\<rparr> = Inr st1"
    by (auto simp: build_index_nonempty)
  then show ?thesis using m e
    by (simp add: find_matching_images_def os_listdir_def bind_err_def Let_def)
qed

section \<open>Decimal numerals\<close>

lemma digit_char_table: "map digit_char [0, 1, 2, 3, 4, 5, 6, 7, 8, 9] = ''0123456789''"
  by code_simp

lemma is_digit_digit_char: "d < 10 \<Longrightarrow> is_digit (digit_char d)"
proof -
  assume "d < 10"
  then have "d \<in> set [0, 1, 2, 3, 4, 5, 6, 7, 8, 9]" by auto
  then have "digit_char d \<in> set (map digit_char [0, 1, 2, 3, 4, 5, 6, 7, 8, 9])"
    unfolding set_map by (rule imageI)
  then show ?thesis by (simp only: digit_char_table is_digit_def)
qed

lemma digit_val_digit_char: "d < 10 \<Longrightarrow> digit_val (digit_char d) = d"
  by (simp add: digit_val_def digit_char_def)

lemma nat_of_digits_snoc: "nat_of_digits (s @ [c]) = 10 * nat_of_digits s + digit_val c"
  by (simp add: nat_of_digits_def)

lemma str_nat_digits: "list_all is_digit (str_nat n)"
proof (induction n rule: str_nat.induct)
  case (1 n)
  show ?case
  proof (cases "n < 10")
    case True
    then show ?thesis by (simp add: str_nat.simps [of n] is_digit_digit_char)
  next
    case False
    then show ?thesis using 1 by (simp add: str_nat.simps [of n] is_digit_digit_char)
  qed
qed

lemma str_nat_nonempty: "str_nat n \<noteq> []"
  by (simp add: str_nat.simps [of n])

lemma nat_of_digits_str_nat: "nat_of_digits (str_nat n) = n"
proof (induction n rule: str_nat.induct)
  case (1 n)
  show ?case
  proof (cases "n < 10")
    case True
    then show ?thesis
      by (simp add: str_nat.simps [of n] nat_of_digits_def digit_val_digit_char)
  next
    case False
    then have "nat_of_digits (str_nat (n div 10)) = n div 10" using 1 by simp
    then show ?thesis using False
      by (simp add: str_nat.simps [of n] nat_of_digits_snoc digit_val_digit_char)
  qed
qed



lemma nat_of_digits_zeros: "nat_of_digits (replicate k CHR ''0'' @ s) = nat_of_digits s"
proof (induction k)
  case 0
  then show ?case by simp
next
  case (Suc k)
  have "nat_of_digits (CHR ''0'' # t) = nat_of_digits t" for t
    by (simp add: nat_of_digits_def digit_val_def)
  then show ?case using Suc by simp
qed

lemma fmt_04d_digits: "list_all is_digit (fmt_04d n)"
proof -
  have "is_digit CHR ''0''" by (simp add: is_digit_def)
  then show ?thesis using str_nat_digits [of n] by (auto simp: fmt_04d_def list_all_iff)
qed

lemma nat_of_digits_fmt_04d: "nat_of_digits (fmt_04d n) = n"
  by (simp add: fmt_04d_def nat_of_digits_zeros nat_of_digits_str_nat)




section \<open>Destination paths\<close>

lemma basename_no_sep: "CHR ''/'' \<notin> set (basename p)"
  unfolding basename_def by (auto dest: set_takeWhileD)

lemma startswith_sep: "startswith b ''/'' = (b \<noteq> [] \<and> hd b = CHR ''/'')"
  by (cases b) (auto simp: startswith_def)

lemma join_plain: "\<not> startswith b ''/'' \<Longrightarrow> join a b = sep_prefix a @ b"
  by (simp add: join_def sep_prefix_def)

lemma fmt_04d_nonempty: "fmt_04d i \<noteq> []"
  by (simp add: fmt_04d_def str_nat_nonempty)

lemma fmt_04d_hd: "is_digit (hd (fmt_04d i))"
  using fmt_04d_digits [of i] fmt_04d_nonempty [of i] by (cases "fmt_04d i") auto

lemma join_fmt: "join a (fmt_04d i @ t) = sep_prefix a @ fmt_04d i @ t"
proof -
  have "hd (fmt_04d i @ t) \<noteq> CHR ''/''"
    using fmt_04d_hd [of i] fmt_04d_nonempty [of i] by (auto simp: is_digit_def)
  then show ?thesis by (simp add: join_plain startswith_sep)
qed

lemma dest_key_eq:
  "dest_key (length pre) (pre @ fmt_04d i @ CHR ''_'' # c # t) = (i, c)"
proof -
  have "\<not> is_digit CHR ''_''" by (simp add: is_digit_def)
  then have "takeWhile is_digit (fmt_04d i @ CHR ''_'' # c # t) = fmt_04d i"
    using fmt_04d_digits [of i] by (simp add: takeWhile_append2 list_all_iff)
  then show ?thesis by (simp add: dest_key_def nat_of_digits_fmt_04d nth_append)
qed

lemma group_copies_keys:
  "map (dest_key (length (sep_prefix dest))) (map snd (group_copies sf dest i f p1 p2))
     = [(i, CHR ''1''), (i, CHR ''2''), (i, CHR ''3'')]"
proof -
  have a: "join dest (new_source_name i sf (join sf f))
     = sep_prefix dest @ fmt_04d i @ CHR ''_'' # CHR ''1'' # (''_'' @ basename (normpath sf) @ ''_'' @ basename (join sf f))"
    using join_fmt [of dest i] by (simp add: new_source_name_def)
  have b: "join dest (new_folder1_name i p1)
     = sep_prefix dest @ fmt_04d i @ CHR ''_'' # CHR ''2'' # (''_'' @ basename (normpath (dirname p1)) @ ''_'' @ basename p1)"
    using join_fmt [of dest i] by (simp add: new_folder1_name_def)
  have c: "join dest (new_folder2_name i p2)
     = sep_prefix dest @ fmt_04d i @ CHR ''_'' # CHR ''3'' # (''_'' @ basename (normpath (dirname p2)) @ ''_'' @ basename p2)"
    using join_fmt [of dest i] by (simp add: new_folder2_name_def)
  show ?thesis by (simp only: group_copies_def list.map snd_conv a b c dest_key_eq)
qed

lemma expected_copies_cases:
  "expected_copies sf dest d1 d2 (i, f) = []
   \<or> (\<exists>p1 p2. expected_copies sf dest d1 d2 (i, f) = group_copies sf dest i f p1 p2)"
  by (auto simp: expected_copies_def split: option.splits list.splits)

lemma expected_copies_keys:
  "map (dest_key (length (sep_prefix dest))) (map snd (expected_copies sf dest d1 d2 (i, f)))
     = [] \<or>
   map (dest_key (length (sep_prefix dest))) (map snd (expected_copies sf dest d1 d2 (i, f)))
     = [(i, CHR ''1''), (i, CHR ''2''), (i, CHR ''3'')]"
proof -
  from expected_copies_cases [of sf dest d1 d2 i f] show ?thesis
  proof
    assume "expected_copies sf dest d1 d2 (i, f) = []"
    then show ?thesis by simp
  next
    assume "\<exists>p1 p2. expected_copies sf dest d1 d2 (i, f) = group_copies sf dest i f p1 p2"
    then obtain p1 p2 where
      e: "expected_copies sf dest d1 d2 (i, f) = group_copies sf dest i f p1 p2" by blast
    show ?thesis by (simp only: e group_copies_keys) simp
  qed
qed

lemma keys_distinct:
  assumes "distinct (map fst xs)"
  shows "distinct (map (dest_key (length (sep_prefix dest)))
           (map snd (concat (map (expected_copies sf dest d1 d2) xs))))
       \<and> fst ` set (map (dest_key (length (sep_prefix dest)))
           (map snd (concat (map (expected_copies sf dest d1 d2) xs)))) \<subseteq> fst ` set xs"
  using assms
proof (induction xs)
  case Nil
  then show ?case by simp
next
  case (Cons x xs)
  obtain i f where x: "x = (i, f)" by (cases x) auto
  let ?K = "\<lambda>ys. map (dest_key (length (sep_prefix dest))) (map snd ys)"
  have ih: "distinct (?K (concat (map (expected_copies sf dest d1 d2) xs)))"
    "fst ` set (?K (concat (map (expected_copies sf dest d1 d2) xs))) \<subseteq> fst ` set xs"
    using Cons by simp_all
  have i: "i \<notin> fst ` set xs" using Cons.prems by (simp add: x)
  have split: "?K (concat (map (expected_copies sf dest d1 d2) (x # xs)))
      = ?K (expected_copies sf dest d1 d2 (i, f)) @ ?K (concat (map (expected_copies sf dest d1 d2) xs))"
    by (simp add: x)
  from expected_copies_keys [of dest sf d1 d2 i f]
  show ?case
  proof
    assume e: "?K (expected_copies sf dest d1 d2 (i, f)) = []"
    show ?thesis unfolding split e using ih by auto
  next
    assume e: "?K (expected_copies sf dest d1 d2 (i, f)) = [(i, CHR ''1''), (i, CHR ''2''), (i, CHR ''3'')]"
    have n: "(i, c) \<notin> set (?K (concat (map (expected_copies sf dest d1 d2) xs)))" for c
    proof
      assume "(i, c) \<in> set (?K (concat (map (expected_copies sf dest d1 d2) xs)))"
      then have "fst (i, c) \<in> fst ` set (?K (concat (map (expected_copies sf dest d1 d2) xs)))"
        by (rule imageI)
      then show False using ih(2) i by auto
    qed
    have d: "distinct ([(i, CHR ''1''), (i, CHR ''2''), (i, CHR ''3'')]
                @ ?K (concat (map (expected_copies sf dest d1 d2) xs)))"
      using ih(1) n by simp
    have s: "fst ` set ([(i, CHR ''1''), (i, CHR ''2''), (i, CHR ''3'')]
                @ ?K (concat (map (expected_copies sf dest d1 d2) xs))) \<subseteq> fst ` set (x # xs)"
      using ih(2) by (auto simp: x)
    show ?thesis unfolding split e using d s by blast
  qed
qed

lemma expected_copies_distinct:
  assumes "distinct (map fst xs)"
  shows "distinct (map snd (concat (map (expected_copies sf dest d1 d2) xs)))"
proof -
  let ?ys = "map snd (concat (map (expected_copies sf dest d1 d2) xs))"
  have "distinct (map (dest_key (length (sep_prefix dest))) ?ys)"
    using keys_distinct [OF assms, of dest sf d1 d2] by (rule conjunct1)
  then show ?thesis by (simp only: distinct_map [of _ ?ys])
qed

lemma enumerate_fst_distinct: "distinct (map fst (enumerate n xs))"
  by (simp add: map_fst_enumerate del: upt_Suc)






lemma dest_key_name: "dest_key 0 (fmt_04d i @ CHR ''_'' # c # t) = (i, c)"
  using dest_key_eq [of "[]" i c t] by (simp only: list.size append_Nil)

lemma name_keys:
  "dest_key 0 (new_source_name i sf sp) = (i, CHR ''1'')"
  "dest_key 0 (new_folder1_name i p1) = (i, CHR ''2'')"
  "dest_key 0 (new_folder2_name i p2) = (i, CHR ''3'')"
proof -
  have "new_source_name i sf sp
      = fmt_04d i @ CHR ''_'' # CHR ''1'' # (''_'' @ basename (normpath sf) @ ''_'' @ basename sp)"
    by (simp add: new_source_name_def)
  then show "dest_key 0 (new_source_name i sf sp) = (i, CHR ''1'')"
    by (simp only: dest_key_name)
  have "new_folder1_name i p1
      = fmt_04d i @ CHR ''_'' # CHR ''2'' # (''_'' @ basename (normpath (dirname p1)) @ ''_'' @ basename p1)"
    by (simp add: new_folder1_name_def)
  then show "dest_key 0 (new_folder1_name i p1) = (i, CHR ''2'')"
    by (simp only: dest_key_name)
  have "new_folder2_name i p2
      = fmt_04d i @ CHR ''_'' # CHR ''3'' # (''_'' @ basename (normpath (dirname p2)) @ ''_'' @ basename p2)"
    by (simp add: new_folder2_name_def)
  then show "dest_key 0 (new_folder2_name i p2) = (i, CHR ''3'')"
    by (simp only: dest_key_name)
qed

lemma fmt_04d_inj: "(fmt_04d i = fmt_04d j) = (i = j)"
  by (metis nat_of_digits_fmt_04d)

lemma enumerate_nth_map: "enumerate 0 xs = map (\<lambda>i. (i, xs ! i)) [0..<length xs]"
  by (rule nth_equalityI) (simp_all add: nth_enumerate_eq)

lemma source_files_of_sort:
  "source_files_of listing = sort (filter (\<lambda>f. endswith (lower f) ''.jpg'') listing)"
  by (simp add: source_files_of_def filter_sort)

lemma find_matching_images_copied:
  assumes "find_matching_images os sf f1 f2 dest s0 = Inr st"
  shows "\<exists>s1 es. makedirs os dest s0 = Some s1 \<and> scandir os sf s1 = Some es
           \<and> copied st = concat (map (expected_copies sf dest (build_index (os_walk os f1 s1))
                                         (build_index (os_walk os f2 s1)))
                                    (enumerate 0 (source_files_of (map node_name es))))"
proof -
  from find_matching_images_Inr [OF assms] obtain s1 es st1 where
    m: "makedirs os dest s0 = Some s1" "scandir os sf s1 = Some es"
    and l: "match_loop os sf dest (build_index (os_walk os f1 s1)) (build_index (os_walk os f2 s1))
                (enumerate 0 (source_files_of (map node_name es)))
                \<lparr>filesystem = s1, matches_found = 0, copied = [], printed = []\<rparr> = Inr st1"
    and e: "st = print (''Total matches found and processed: '' @ str_nat (matches_found st1)) st1"
    by blast
  from match_loop_Inr(1) [OF l] have "copied st = concat (map (expected_copies sf dest
      (build_index (os_walk os f1 s1)) (build_index (os_walk os f2 s1)))
      (enumerate 0 (source_files_of (map node_name es))))"
    by (simp add: e print_fields)
  then show ?thesis using m by blast
qed


section \<open>The last segment of a normalised path\<close>














section \<open>Names without an identifier\<close>

text \<open>
  For a name that does not end in a newline, and so for every name that passes
  the test \<open>lower().endswith('.jpg')\<close> of the callers, there is no identifier
  exactly when the name does not end in digits followed by \<open>.jpg\<close>.
\<close>

lemma digit_suffix_split:
  assumes "D \<noteq> []" "list_all is_digit D"
  shows "\<exists>p' D'. p @ D = p' @ D' \<and> D' \<noteq> [] \<and> list_all is_digit D'
           \<and> (p' = [] \<or> \<not> is_digit (last p'))"
proof -
  let ?xs = "p @ D"
  let ?D = "rev (takeWhile is_digit (rev ?xs))"
  let ?p = "rev (dropWhile is_digit (rev ?xs))"
  have e: "?xs = ?p @ ?D"
    using takeWhile_dropWhile_id [of is_digit "rev ?xs"]
    by (metis rev_append rev_rev_ident)
  have "is_digit (hd (rev D))" using assms by (cases D rule: rev_cases) (auto simp: list_all_iff)
  then have "takeWhile is_digit (rev ?xs) \<noteq> []" using assms(1) by (cases "rev D") auto
  then have ne: "?D \<noteq> []" by simp
  have dg: "list_all is_digit ?D" by (auto simp: list_all_iff dest: set_takeWhileD)
  have "?p = [] \<or> \<not> is_digit (last ?p)"
  proof (cases "dropWhile is_digit (rev ?xs) = []")
    case True
    then show ?thesis by simp
  next
    case False
    then have "\<not> is_digit (hd (dropWhile is_digit (rev ?xs)))" by (rule hd_dropWhile)
    then show ?thesis using False by (simp add: last_rev)
  qed
  then show ?thesis using e ne dg by blast
qed

lemma extract_identifier_None_iff:
  assumes "f = [] \<or> last f \<noteq> CHR 0x0A"
  shows "(extract_identifier f = None)
           = (\<not> (\<exists>p D. f = p @ D @ ''.jpg'' \<and> D \<noteq> [] \<and> list_all is_digit D))"
proof
  assume n: "extract_identifier f = None"
  show "\<not> (\<exists>p D. f = p @ D @ ''.jpg'' \<and> D \<noteq> [] \<and> list_all is_digit D)"
  proof
    assume "\<exists>p D. f = p @ D @ ''.jpg'' \<and> D \<noteq> [] \<and> list_all is_digit D"
    then obtain p D where f: "f = p @ D @ ''.jpg''" and D: "D \<noteq> []" "list_all is_digit D"
      by blast
    from digit_suffix_split [OF D, of p] obtain p' D' where
      s: "p @ D = p' @ D'" "D' \<noteq> []" "list_all is_digit D'" "p' = [] \<or> \<not> is_digit (last p')"
      by blast
    have a: "at_dollar []" by (simp add: at_dollar_def)
    have "f = p' @ D' @ ''.jpg'' @ []" using f s(1) by simp
    then have "extract_identifier f \<noteq> None"
      using extract_identifier_complete [OF a s(2) s(3) s(4)] by simp
    then show False using n by simp
  qed
next
  assume n: "\<not> (\<exists>p D. f = p @ D @ ''.jpg'' \<and> D \<noteq> [] \<and> list_all is_digit D)"
  show "extract_identifier f = None"
  proof (rule ccontr)
    assume "extract_identifier f \<noteq> None"
    then obtain s where "extract_identifier f = Some s" by blast
    from extract_identifier_SomeD [OF this] obtain p D t where
      f: "f = p @ D @ ''.jpg'' @ t" and t: "at_dollar t" and D: "D \<noteq> []" "list_all is_digit D"
      by blast
    have "t = []"
    proof (rule ccontr)
      assume "t \<noteq> []"
      then have "t = [CHR 0x0A]" using t by (simp add: at_dollar_def)
      then have "f \<noteq> [] \<and> last f = CHR 0x0A" using f by simp
      then show False using assms by simp
    qed
    then have "f = p @ D @ ''.jpg''" using f by simp
    then show False using n D by blast
  qed
qed

lemma lower_char_newline: "lower_char c = CHR ''g'' \<Longrightarrow> c \<noteq> CHR 0x0A"
  by (auto simp: lower_char_def)

lemma endswith_last:
  assumes "endswith s suf" "suf \<noteq> []"
  shows "s \<noteq> [] \<and> last s = last suf"
proof -
  have "s = take (length s - length suf) s @ suf"
    using assms(1) append_take_drop_id [of "length s - length suf" s]
    by (simp add: endswith_def)
  then show ?thesis using assms(2) by (metis append_is_Nil_conv last_appendR)
qed

lemma prefiltered_no_newline:
  assumes "endswith (lower f) ''.jpg''"
  shows "f \<noteq> [] \<and> last f \<noteq> CHR 0x0A"
proof -
  from endswith_last [OF assms] have l: "lower f \<noteq> []" "last (lower f) = CHR ''g''" by simp_all
  then have ne: "f \<noteq> []" by (auto simp: lower_def)
  then have "lower_char (last f) = CHR ''g''" using l(2) by (simp add: lower_def last_map)
  then show ?thesis using ne lower_char_newline by blast
qed

lemma extract_identifier_None_iff_prefiltered:
  assumes "endswith (lower f) ''.jpg''"
  shows "(extract_identifier f = None)
           = (\<not> (\<exists>p D. f = p @ D @ ''.jpg'' \<and> D \<noteq> [] \<and> list_all is_digit D))"
  using extract_identifier_None_iff [of f] prefiltered_no_newline [OF assms] by blast

lemma source_files_of_suffix:
  "f \<in> set (source_files_of listing) \<Longrightarrow> endswith (lower f) ''.jpg''"
  by (simp add: source_files_of_def)

section \<open>The identifier extractor\<close>

text \<open>
  C1. A file name made of a run of digits \<open>D\<close> followed by \<open>.jpg\<close>, with or
  without a prefix \<open>p\<close> that does not end in a digit: when \<open>D\<close> has more than five
  characters the identifier is \<open>D\<close> without its last five characters, otherwise
  it is \<open>D\<close> itself. For \<open>img00012345.jpg\<close> the identifier is \<open>000\<close>.
\<close>

theorem extract_identifier_truncation:
  "(D \<noteq> [] \<and> list_all is_digit D \<and> (p = [] \<or> \<not> is_digit (last p)) \<longrightarrow>
      extract_identifier (p @ D @ ''.jpg'')
        = Some (if 5 < length D then take (length D - 5) D else D))
   \<and> (D \<noteq> [] \<and> list_all is_digit D \<longrightarrow>
      extract_identifier (D @ ''.jpg'')
        = Some (if 5 < length D then take (length D - 5) D else D))
   \<and> extract_identifier ''img00012345.jpg'' = Some ''000''"
proof -
  have a: "at_dollar []" by (simp add: at_dollar_def)
  have g: "extract_identifier (q @ E @ ''.jpg'')
        = Some (if 5 < length E then take (length E - 5) E else E)"
    if "E \<noteq> []" "list_all is_digit E" "q = [] \<or> \<not> is_digit (last q)" for q E
    using extract_identifier_complete [OF a that] by simp
  have d: "list_all is_digit ''00012345''" by (simp add: is_digit_def)
  have n: "\<not> is_digit (last ''img'')" by (simp add: is_digit_def)
  have "extract_identifier (''img'' @ ''00012345'' @ ''.jpg'') = Some ''000''"
    using g [of "''00012345''" "''img''"] d n by simp
  then have e: "extract_identifier ''img00012345.jpg'' = Some ''000''" by simp
  show ?thesis using g [of D p] g [of D "[]"] e by simp
qed

theorem extract_identifier_truncation_witness:
  "list_all is_digit ''20240117'' \<and> \<not> is_digit (last ''scan_'')
   \<and> extract_identifier ''scan_20240117.jpg'' = Some ''202''
   \<and> list_all is_digit ''12345''
   \<and> extract_identifier ''12345.jpg'' = Some ''12345''"
proof -
  have d: "list_all is_digit ''20240117''" "list_all is_digit ''12345''"
    and n: "\<not> is_digit (last ''scan_'')"
    by (simp_all add: is_digit_def)
  from extract_identifier_truncation [of "''20240117''" "''scan_''"] d n
  have "extract_identifier ''scan_20240117.jpg'' = Some ''202''" by simp
  moreover from extract_identifier_truncation [of "''12345''" "[]"] d
  have "extract_identifier ''12345.jpg'' = Some ''12345''" by simp
  ultimately show ?thesis using d n by simp
qed

text \<open>
  C9. \<open>extract_identifier\<close> returns \<open>None\<close> or a non-empty string of digits, never
  the empty string, so the truthiness tests on its result are tests against
  \<open>None\<close>.
\<close>

theorem extract_identifier_never_empty:
  "(extract_identifier f = None
      \<or> (\<exists>s. extract_identifier f = Some s \<and> s \<noteq> [] \<and> list_all is_digit s))
   \<and> extract_identifier f \<noteq> Some []
   \<and> truthy (extract_identifier f) = (extract_identifier f \<noteq> None)"
proof (cases "extract_identifier f")
  case None
  then show ?thesis by simp
next
  case (Some s)
  from extract_identifier_digits [OF Some] Some show ?thesis by simp
qed

theorem extract_identifier_never_empty_witness:
  "extract_identifier ''7.jpg'' = Some ''7'' \<and> truthy (extract_identifier ''7.jpg'')
   \<and> extract_identifier ''photo_final.jpg'' = None
   \<and> \<not> truthy (extract_identifier ''photo_final.jpg'')"
proof -
  have a: "extract_identifier ''7.jpg'' = Some ''7''"
    and b: "extract_identifier ''photo_final.jpg'' = None"
    by (simp_all add: extract_identifier_def match_here_def match_with_def is_digit_def
          at_dollar_def)
  from extract_identifier_never_empty [of "''7.jpg''"]
    extract_identifier_never_empty [of "''photo_final.jpg''"] a b
  show ?thesis by simp
qed

text \<open>
  C6. For every name that the callers pass, that is every name that ends in
  \<open>.jpg\<close> in any case, and every name of the source list among them, and more
  generally for every name that does not end in a newline character,
  \<open>extract_identifier\<close> returns \<open>None\<close> exactly when the name does not end in one
  or more digits followed by the literal \<open>.jpg\<close>. A name without identifier is
  in both indices for no pair of indices, is left out of an index, and gets the
  extraction-failure line in the main loop. The name \<open>photo_final.jpg\<close> has no
  identifier, and neither has \<open>a12.JPG\<close>, which passes the test of the callers.
\<close>

theorem no_identifier_iff_no_digits_before_jpg:
  "((f = [] \<or> last f \<noteq> CHR 0x0A) \<longrightarrow>
      (extract_identifier f = None)
        = (\<not> (\<exists>p D. f = p @ D @ ''.jpg'' \<and> D \<noteq> [] \<and> list_all is_digit D)))
   \<and> (endswith (lower f) ''.jpg'' \<longrightarrow>
        f \<noteq> [] \<and> last f \<noteq> CHR 0x0A
        \<and> (extract_identifier f = None)
            = (\<not> (\<exists>p D. f = p @ D @ ''.jpg'' \<and> D \<noteq> [] \<and> list_all is_digit D)))
   \<and> (f \<in> set (source_files_of listing) \<longrightarrow>
        (extract_identifier f = None)
          = (\<not> (\<exists>p D. f = p @ D @ ''.jpg'' \<and> D \<noteq> [] \<and> list_all is_digit D)))
   \<and> (extract_identifier f = None \<longrightarrow>
        \<not> in_both d1 d2 f \<and> index_file root f d = d
        \<and> process_file os sf dest d1 d2 i f st
            = Inr (print (''Could not extract identifier from '' @ f) st))
   \<and> extract_identifier ''photo_final.jpg'' = None
   \<and> endswith (lower ''a12.JPG'') ''.jpg'' \<and> extract_identifier ''a12.JPG'' = None"
proof (intro conjI impI)
  assume "f = [] \<or> last f \<noteq> CHR 0x0A"
  then show "(extract_identifier f = None)
        = (\<not> (\<exists>p D. f = p @ D @ ''.jpg'' \<and> D \<noteq> [] \<and> list_all is_digit D))"
    by (rule extract_identifier_None_iff)
next
  assume a: "endswith (lower f) ''.jpg''"
  from prefiltered_no_newline [OF a] show "f \<noteq> []" and "last f \<noteq> CHR 0x0A" by simp_all
  from a show "(extract_identifier f = None)
        = (\<not> (\<exists>p D. f = p @ D @ ''.jpg'' \<and> D \<noteq> [] \<and> list_all is_digit D))"
    by (rule extract_identifier_None_iff_prefiltered)
next
  assume "f \<in> set (source_files_of listing)"
  then have "endswith (lower f) ''.jpg''" by (rule source_files_of_suffix)
  then show "(extract_identifier f = None)
        = (\<not> (\<exists>p D. f = p @ D @ ''.jpg'' \<and> D \<noteq> [] \<and> list_all is_digit D))"
    by (rule extract_identifier_None_iff_prefiltered)
next
  assume n: "extract_identifier f = None"
  show "\<not> in_both d1 d2 f" using n by (simp add: in_both_def)
  show "index_file root f d = d" using n by (simp add: index_file_skip)
  show "process_file os sf dest d1 d2 i f st
            = Inr (print (''Could not extract identifier from '' @ f) st)"
    using n by (rule process_file_no_identifier)
next
  show "extract_identifier ''photo_final.jpg'' = None" by code_simp
  show "endswith (lower ''a12.JPG'') ''.jpg''" by code_simp
  show "extract_identifier ''a12.JPG'' = None" by code_simp
qed

theorem no_identifier_iff_no_digits_before_jpg_witness:
  "endswith (lower ''a7.jpg'') ''.jpg'' \<and> ''a7.jpg'' = ''a'' @ ''7'' @ ''.jpg''
   \<and> extract_identifier ''a7.jpg'' \<noteq> None
   \<and> endswith (lower ''photo_final.jpg'') ''.jpg''
   \<and> extract_identifier ''photo_final.jpg'' = None
   \<and> \<not> in_both (build_index (os_walk demo_os ''f1'' ())) (build_index (os_walk demo_os ''f2'' ()))
         ''photo_final.jpg''"
proof -
  have a: "endswith (lower ''a7.jpg'') ''.jpg''" "endswith (lower ''photo_final.jpg'') ''.jpg''"
    by code_simp+
  have e: "''a7.jpg'' = ''a'' @ ''7'' @ ''.jpg''" by simp
  have dg: "''7'' \<noteq> [] \<and> list_all is_digit ''7''" by (simp add: is_digit_def)
  have ex: "\<exists>p D. ''a7.jpg'' = p @ D @ ''.jpg'' \<and> D \<noteq> [] \<and> list_all is_digit D"
    using e dg by blast
  note t1 = no_identifier_iff_no_digits_before_jpg [where f = "''a7.jpg''"]
  have "(extract_identifier ''a7.jpg'' = None)
      = (\<not> (\<exists>p D. ''a7.jpg'' = p @ D @ ''.jpg'' \<and> D \<noteq> [] \<and> list_all is_digit D))"
    using t1 [THEN conjunct2, THEN conjunct1] a(1) by blast
  then have s: "extract_identifier ''a7.jpg'' \<noteq> None" using ex by blast
  have n: "extract_identifier ''photo_final.jpg'' = None" by code_simp
  note t2 = no_identifier_iff_no_digits_before_jpg [where f = "''photo_final.jpg''"
      and ?d1.0 = "build_index (os_walk demo_os ''f1'' ())"
      and ?d2.0 = "build_index (os_walk demo_os ''f2'' ())"]
  have m: "\<not> in_both (build_index (os_walk demo_os ''f1'' ())) (build_index (os_walk demo_os ''f2'' ()))
         ''photo_final.jpg''"
    using t2 [THEN conjunct2, THEN conjunct2, THEN conjunct2, THEN conjunct1] n by blast
  show ?thesis by (intro conjI a e s n m)
qed

text \<open>
  Outside the names that the callers pass: \<open>$\<close> also matches before a final
  newline, so the name \<open>1.jpg\<close> followed by a newline character, which does not
  end in \<open>.jpg\<close> and is filtered out by every caller, would get the identifier
  \<open>1\<close>.
\<close>

lemma extract_identifier_trailing_newline:
  "\<not> endswith (''1.jpg'' @ [CHR 0x0A]) ''.jpg''
   \<and> \<not> endswith (lower (''1.jpg'' @ [CHR 0x0A])) ''.jpg''
   \<and> extract_identifier (''1.jpg'' @ [CHR 0x0A]) = Some ''1''"
  by code_simp

section \<open>The candidate indexer\<close>



section \<open>The matcher\<close>

text \<open>
  C3. A source file is in both indices when it has an identifier that is a key
  of the two dictionaries. When the body of the loop returns for a file that is
  in both, exactly the three copies of its match group have been added and the
  counter is one higher; for a file that is not, nothing is copied and the
  counter and the file system are unchanged; so copies are made if and only if
  the file is in both. When the identifier is missing from one of the indices,
  the body returns the state with the no-match line added and nothing else
  changed, and the loop goes on with the next file. With indices built by the
  indexer and a copy primitive that does not fail, the body always returns.
\<close>

theorem match_group_iff_in_both_indices:
  "(in_both d1 d2 f = (\<exists>tid. extract_identifier f = Some tid \<and> tid \<in> dom d1 \<and> tid \<in> dom d2))
   \<and> (process_file os sf dest d1 d2 i f st = Inr st' \<longrightarrow>
        (in_both d1 d2 f \<longrightarrow>
           (\<exists>tid p1 r1 p2 r2. extract_identifier f = Some tid \<and> d1 tid = Some (p1 # r1)
              \<and> d2 tid = Some (p2 # r2)
              \<and> copied st' = copied st @ group_copies sf dest i f p1 p2
              \<and> matches_found st' = matches_found st + 1))
        \<and> (\<not> in_both d1 d2 f \<longrightarrow>
              copied st' = copied st \<and> matches_found st' = matches_found st
              \<and> filesystem st' = filesystem st)
        \<and> (copied st' \<noteq> copied st) = in_both d1 d2 f)
   \<and> (extract_identifier f = Some tid \<and> (tid \<notin> dom d1 \<or> tid \<notin> dom d2) \<longrightarrow>
        process_file os sf dest d1 d2 i f st
          = Inr (st\<lparr>printed := printed st @ [''No match found for truncated identifier: '' @ tid]\<rparr>)
        \<and> match_loop os sf dest d1 d2 ((i, f) # rest) st
          = match_loop os sf dest d1 d2 rest
              (st\<lparr>printed := printed st @ [''No match found for truncated identifier: '' @ tid]\<rparr>))
   \<and> ((\<forall>a b s. copy2 os a b s \<noteq> None) \<longrightarrow>
        (\<exists>st''. process_file os sf dest (build_index w1) (build_index w2) i f st = Inr st''))"
proof -
  have a: "in_both d1 d2 f = (\<exists>tid. extract_identifier f = Some tid \<and> tid \<in> dom d1 \<and> tid \<in> dom d2)"
    by (rule in_both_iff)
  have b: "\<exists>tid p1 r1 p2 r2. extract_identifier f = Some tid \<and> d1 tid = Some (p1 # r1)
              \<and> d2 tid = Some (p2 # r2)
              \<and> copied st' = copied st @ group_copies sf dest i f p1 p2
              \<and> matches_found st' = matches_found st + 1"
    if "process_file os sf dest d1 d2 i f st = Inr st'" "in_both d1 d2 f"
    using process_file_in_both [OF that(2) that(1)] .
  have c: "copied st' = copied st \<and> matches_found st' = matches_found st
              \<and> filesystem st' = filesystem st"
    if "process_file os sf dest d1 d2 i f st = Inr st'" "\<not> in_both d1 d2 f"
    using that process_file_not_in_both [OF that(2), of os sf dest i st]
    by (auto simp: print_fields)
  have d: "(copied st' \<noteq> copied st) = in_both d1 d2 f"
    if "process_file os sf dest d1 d2 i f st = Inr st'"
  proof (cases "in_both d1 d2 f")
    case True
    from b [OF that True] show ?thesis using True by (auto simp: group_copies_def)
  next
    case False
    from c [OF that False] show ?thesis using False by simp
  qed
  have e: "process_file os sf dest d1 d2 i f st
          = Inr (st\<lparr>printed := printed st @ [''No match found for truncated identifier: '' @ tid]\<rparr>)"
    if "extract_identifier f = Some tid" "tid \<notin> dom d1 \<or> tid \<notin> dom d2"
  proof -
    have "d1 tid = None \<or> d2 tid = None" using that(2) by (simp add: dom_def)
    then have "process_file os sf dest d1 d2 i f st = Inr (print (no_match_line tid) st)"
      using process_file_no_match [of f tid d1 d2 os sf dest i st] that(1) by simp
    then show ?thesis by (simp add: no_match_line_def print_def)
  qed
  have g: "\<exists>st''. process_file os sf dest (build_index w1) (build_index w2) i f st = Inr st''"
    if "\<forall>a b s. copy2 os a b s \<noteq> None"
    using build_index_total [OF that] .
  have h: "match_loop os sf dest d1 d2 ((i, f) # rest) st
          = match_loop os sf dest d1 d2 rest
              (st\<lparr>printed := printed st @ [''No match found for truncated identifier: '' @ tid]\<rparr>)"
    if "extract_identifier f = Some tid" "tid \<notin> dom d1 \<or> tid \<notin> dom d2"
    using e [OF that] by simp
  show ?thesis
  proof (intro conjI impI)
    show "in_both d1 d2 f = (\<exists>tid. extract_identifier f = Some tid \<and> tid \<in> dom d1 \<and> tid \<in> dom d2)"
      by (rule a)
  next
    assume "process_file os sf dest d1 d2 i f st = Inr st'" "in_both d1 d2 f"
    then show "\<exists>tid p1 r1 p2 r2. extract_identifier f = Some tid \<and> d1 tid = Some (p1 # r1)
              \<and> d2 tid = Some (p2 # r2)
              \<and> copied st' = copied st @ group_copies sf dest i f p1 p2
              \<and> matches_found st' = matches_found st + 1"
      by (rule b)
  next
    assume p: "process_file os sf dest d1 d2 i f st = Inr st'" "\<not> in_both d1 d2 f"
    from c [OF p] show "copied st' = copied st" by simp
    from c [OF p] show "matches_found st' = matches_found st" by simp
    from c [OF p] show "filesystem st' = filesystem st" by simp
  next
    assume "process_file os sf dest d1 d2 i f st = Inr st'"
    then show "(copied st' \<noteq> copied st) = in_both d1 d2 f" by (rule d)
  next
    assume "extract_identifier f = Some tid \<and> (tid \<notin> dom d1 \<or> tid \<notin> dom d2)"
    then show "process_file os sf dest d1 d2 i f st
          = Inr (st\<lparr>printed := printed st @ [''No match found for truncated identifier: '' @ tid]\<rparr>)"
      using e by blast
  next
    assume "extract_identifier f = Some tid \<and> (tid \<notin> dom d1 \<or> tid \<notin> dom d2)"
    then show "match_loop os sf dest d1 d2 ((i, f) # rest) st
          = match_loop os sf dest d1 d2 rest
              (st\<lparr>printed := printed st @ [''No match found for truncated identifier: '' @ tid]\<rparr>)"
      using h by blast
  next
    assume "\<forall>a b s. copy2 os a b s \<noteq> None"
    then show "\<exists>st''. process_file os sf dest (build_index w1) (build_index w2) i f st = Inr st''"
      by (rule g)
  qed
qed

theorem match_group_iff_in_both_indices_witness:
  "in_both (build_index (os_walk demo_os ''f1'' ())) (build_index (os_walk demo_os ''f2'' ()))
     ''a_00020002.jpg''
   \<and> copied \<lparr>filesystem = (), matches_found = 1,
        copied =
          [(''src/a_00020002.jpg'', ''out/0000_1_src_a_00020002.jpg''),
           (''f1/sub/x00012345.jpg'', ''out/0000_2_sub_x00012345.jpg''),
           (''f2/w00055555.jpg'', ''out/0000_3_f2_w00055555.jpg'')],
        printed =
          [''Multiple matches found for 000, using the first one from each folder'',
           ''Matched and copied files with truncated identifier: 000'']\<rparr>
       \<noteq> copied \<lparr>filesystem = (), matches_found = 0, copied = [], printed = []\<rparr>
   \<and> extract_identifier ''q99.jpg'' = Some ''99''
   \<and> ''99'' \<notin> dom (build_index (os_walk demo_os ''f1'' ()))
   \<and> process_file demo_os ''src'' ''out'' (build_index (os_walk demo_os ''f1'' ()))
        (build_index (os_walk demo_os ''f2'' ())) 3 ''q99.jpg''
        \<lparr>filesystem = (), matches_found = 0, copied = [], printed = []\<rparr>
       = Inr \<lparr>filesystem = (), matches_found = 0, copied = [],
              printed = [''No match found for truncated identifier: 99'']\<rparr>"
proof -
  let ?d1 = "build_index (os_walk demo_os ''f1'' ())"
  let ?d2 = "build_index (os_walk demo_os ''f2'' ())"
  let ?s0 = "\<lparr>filesystem = (), matches_found = 0, copied = [], printed = []\<rparr> :: unit run_state"
  let ?s1 = "\<lparr>filesystem = (), matches_found = 1,
        copied =
          [(''src/a_00020002.jpg'', ''out/0000_1_src_a_00020002.jpg''),
           (''f1/sub/x00012345.jpg'', ''out/0000_2_sub_x00012345.jpg''),
           (''f2/w00055555.jpg'', ''out/0000_3_f2_w00055555.jpg'')],
        printed =
          [''Multiple matches found for 000, using the first one from each folder'',
           ''Matched and copied files with truncated identifier: 000'']\<rparr> :: unit run_state"
  have run: "process_file demo_os ''src'' ''out'' ?d1 ?d2 0 ''a_00020002.jpg'' ?s0 = Inr ?s1"
    by code_simp
  have x: "extract_identifier ''q99.jpg'' = Some ''99''" by code_simp
  have "?d1 ''99'' = None" by code_simp
  then have n: "''99'' \<notin> dom ?d1" by (simp add: dom_def)
  note t1 = match_group_iff_in_both_indices [of ?d1 ?d2 "''a_00020002.jpg''" demo_os "''src''"
              "''out''" 0 ?s0 ?s1]
  note t2 = match_group_iff_in_both_indices [of ?d1 ?d2 "''q99.jpg''" demo_os "''src''"
              "''out''" 3 ?s0 ?s1 "''99''" "[]"]
  have a: "(copied ?s1 \<noteq> copied ?s0) = in_both ?d1 ?d2 ''a_00020002.jpg''"
    using t1 [THEN conjunct2, THEN conjunct1] run by blast
  have b: "copied ?s1 \<noteq> copied ?s0" by simp
  have c: "process_file demo_os ''src'' ''out'' ?d1 ?d2 3 ''q99.jpg'' ?s0
       = Inr (?s0\<lparr>printed := printed ?s0 @ [''No match found for truncated identifier: '' @ ''99'']\<rparr>)"
    using t2 [THEN conjunct2, THEN conjunct2, THEN conjunct1] x n by blast
  show ?thesis using a b c x n by simp
qed

text \<open>
  C5. For a source file whose identifier has the lists \<open>p1 # r1\<close> and
  \<open>p2 # r2\<close> in the two indices, the body of the loop copies the source file,
  \<open>p1\<close> and \<open>p2\<close>; the later entries \<open>r1\<close> and \<open>r2\<close> decide only whether the
  notice is printed, and replacing them by any other lists gives the same
  copies. The notice is among the lines printed for the file exactly when one
  of the two lists has more than one entry.
\<close>

theorem first_path_of_each_index_is_used:
  "extract_identifier f = Some tid \<and> d1 tid = Some (p1 # r1) \<and> d2 tid = Some (p2 # r2) \<longrightarrow>
     process_file os sf dest d1 d2 i f st
       = bind_err (copy_file os (join sf f) (join dest (new_source_name i sf (join sf f)))
                    (if 1 < length (p1 # r1) \<or> 1 < length (p2 # r2)
                     then print (notice tid) st else st)) (\<lambda>st2.
         bind_err (copy_file os p1 (join dest (new_folder1_name i p1)) st2) (\<lambda>st3.
         bind_err (copy_file os p2 (join dest (new_folder2_name i p2)) st3) (\<lambda>st4.
         Inr (print (matched_line tid) (st4\<lparr>matches_found := matches_found st4 + 1\<rparr>)))))
     \<and> (process_file os sf dest d1 d2 i f st = Inr st' \<longrightarrow>
          copied st' = copied st @
             [(join sf f, join dest (new_source_name i sf (join sf f))),
              (p1, join dest (new_folder1_name i p1)),
              (p2, join dest (new_folder2_name i p2))]
          \<and> printed st' = printed st
               @ (if 1 < length (p1 # r1) \<or> 1 < length (p2 # r2) then [notice tid] else [])
               @ [matched_line tid]
          \<and> (notice tid \<in> set (drop (length (printed st)) (printed st')))
               = (1 < length (p1 # r1) \<or> 1 < length (p2 # r2))
          \<and> (\<forall>q1 q2 st''.
                process_file os sf dest (d1(tid \<mapsto> p1 # q1)) (d2(tid \<mapsto> p2 # q2)) i f st
                  = Inr st'' \<longrightarrow> copied st'' = copied st'))"
proof (intro impI)
  assume h: "extract_identifier f = Some tid \<and> d1 tid = Some (p1 # r1) \<and> d2 tid = Some (p2 # r2)"
  have pm: "process_file os sf dest e1 e2 i f st
             = copy_group os sf dest i (join sf f) tid (p1 # q1) (p2 # q2) st"
    if "e1 tid = Some (p1 # q1)" "e2 tid = Some (p2 # q2)" for e1 e2 q1 q2
    using process_file_match [of f tid e1 "p1 # q1" e2 "p2 # q2" os sf dest i st] h that by simp
  have eq: "process_file os sf dest d1 d2 i f st
             = copy_group os sf dest i (join sf f) tid (p1 # r1) (p2 # r2) st"
    using pm [of d1 r1 d2 r2] h by simp
  have first: "process_file os sf dest d1 d2 i f st
       = bind_err (copy_file os (join sf f) (join dest (new_source_name i sf (join sf f)))
                    (if 1 < length (p1 # r1) \<or> 1 < length (p2 # r2)
                     then print (notice tid) st else st)) (\<lambda>st2.
         bind_err (copy_file os p1 (join dest (new_folder1_name i p1)) st2) (\<lambda>st3.
         bind_err (copy_file os p2 (join dest (new_folder2_name i p2)) st3) (\<lambda>st4.
         Inr (print (matched_line tid) (st4\<lparr>matches_found := matches_found st4 + 1\<rparr>)))))"
    unfolding eq copy_group_unfold by simp
  have second: "copied st' = copied st @
             [(join sf f, join dest (new_source_name i sf (join sf f))),
              (p1, join dest (new_folder1_name i p1)),
              (p2, join dest (new_folder2_name i p2))]
          \<and> printed st' = printed st
               @ (if 1 < length (p1 # r1) \<or> 1 < length (p2 # r2) then [notice tid] else [])
               @ [matched_line tid]
          \<and> (notice tid \<in> set (drop (length (printed st)) (printed st')))
               = (1 < length (p1 # r1) \<or> 1 < length (p2 # r2))
          \<and> (\<forall>q1 q2 st''.
                process_file os sf dest (d1(tid \<mapsto> p1 # q1)) (d2(tid \<mapsto> p2 # q2)) i f st
                  = Inr st'' \<longrightarrow> copied st'' = copied st')"
    if r: "process_file os sf dest d1 d2 i f st = Inr st'"
  proof -
    have cg: "copy_group os sf dest i (join sf f) tid (p1 # r1) (p2 # r2) st = Inr st'"
      using r eq by simp
    note c = copy_group_Inr [OF cg]
    have c1: "copied st' = copied st @
             [(join sf f, join dest (new_source_name i sf (join sf f))),
              (p1, join dest (new_folder1_name i p1)),
              (p2, join dest (new_folder2_name i p2))]"
      using c(1) by (simp add: group_copies_def)
    have c3: "printed st' = printed st
               @ (if 1 < length (p1 # r1) \<or> 1 < length (p2 # r2) then [notice tid] else [])
               @ [matched_line tid]"
      using c(3) by simp
    have c4: "(notice tid \<in> set (drop (length (printed st)) (printed st')))
               = (1 < length (p1 # r1) \<or> 1 < length (p2 # r2))"
      unfolding c3 using notice_not_matched [of tid] by simp
    have c5: "copied st'' = copied st'"
      if "process_file os sf dest (d1(tid \<mapsto> p1 # q1)) (d2(tid \<mapsto> p2 # q2)) i f st = Inr st''"
      for q1 q2 st''
    proof -
      have "copy_group os sf dest i (join sf f) tid (p1 # q1) (p2 # q2) st = Inr st''"
        using that pm [of "d1(tid \<mapsto> p1 # q1)" q1 "d2(tid \<mapsto> p2 # q2)" q2] by simp
      from copy_group_Inr(1) [OF this] c(1) show ?thesis by simp
    qed
    show ?thesis using c1 c3 c4 c5 by blast
  qed
  show "process_file os sf dest d1 d2 i f st
       = bind_err (copy_file os (join sf f) (join dest (new_source_name i sf (join sf f)))
                    (if 1 < length (p1 # r1) \<or> 1 < length (p2 # r2)
                     then print (notice tid) st else st)) (\<lambda>st2.
         bind_err (copy_file os p1 (join dest (new_folder1_name i p1)) st2) (\<lambda>st3.
         bind_err (copy_file os p2 (join dest (new_folder2_name i p2)) st3) (\<lambda>st4.
         Inr (print (matched_line tid) (st4\<lparr>matches_found := matches_found st4 + 1\<rparr>)))))
     \<and> (process_file os sf dest d1 d2 i f st = Inr st' \<longrightarrow>
          copied st' = copied st @
             [(join sf f, join dest (new_source_name i sf (join sf f))),
              (p1, join dest (new_folder1_name i p1)),
              (p2, join dest (new_folder2_name i p2))]
          \<and> printed st' = printed st
               @ (if 1 < length (p1 # r1) \<or> 1 < length (p2 # r2) then [notice tid] else [])
               @ [matched_line tid]
          \<and> (notice tid \<in> set (drop (length (printed st)) (printed st')))
               = (1 < length (p1 # r1) \<or> 1 < length (p2 # r2))
          \<and> (\<forall>q1 q2 st''.
                process_file os sf dest (d1(tid \<mapsto> p1 # q1)) (d2(tid \<mapsto> p2 # q2)) i f st
                  = Inr st'' \<longrightarrow> copied st'' = copied st'))"
    using first second by blast
qed

theorem first_path_of_each_index_is_used_witness:
  "extract_identifier ''img00012345.jpg'' = Some ''000''
   \<and> process_file demo_os ''src'' ''out''
        [''000'' \<mapsto> [''f1/a/x00012345.jpg'', ''f1/b/y00011111.jpg'']]
        [''000'' \<mapsto> [''f2/w00055555.jpg'']] 0 ''img00012345.jpg''
        \<lparr>filesystem = (), matches_found = 0, copied = [], printed = []\<rparr>
      = Inr \<lparr>filesystem = (), matches_found = 1,
          copied =
            [(''src/img00012345.jpg'', ''out/0000_1_src_img00012345.jpg''),
             (''f1/a/x00012345.jpg'', ''out/0000_2_a_x00012345.jpg''),
             (''f2/w00055555.jpg'', ''out/0000_3_f2_w00055555.jpg'')],
          printed =
            [''Multiple matches found for 000, using the first one from each folder'',
             ''Matched and copied files with truncated identifier: 000'']\<rparr>
   \<and> (notice ''000'' \<in> set
          [''Multiple matches found for 000, using the first one from each folder'',
           ''Matched and copied files with truncated identifier: 000''])"
proof -
  let ?d1 = "[''000'' \<mapsto> [''f1/a/x00012345.jpg'', ''f1/b/y00011111.jpg'']]"
  let ?d2 = "[''000'' \<mapsto> [''f2/w00055555.jpg'']]"
  let ?s0 = "\<lparr>filesystem = (), matches_found = 0, copied = [], printed = []\<rparr> :: unit run_state"
  let ?s1 = "\<lparr>filesystem = (), matches_found = 1,
          copied =
            [(''src/img00012345.jpg'', ''out/0000_1_src_img00012345.jpg''),
             (''f1/a/x00012345.jpg'', ''out/0000_2_a_x00012345.jpg''),
             (''f2/w00055555.jpg'', ''out/0000_3_f2_w00055555.jpg'')],
          printed =
            [''Multiple matches found for 000, using the first one from each folder'',
             ''Matched and copied files with truncated identifier: 000'']\<rparr> :: unit run_state"
  have x: "extract_identifier ''img00012345.jpg'' = Some ''000''" by code_simp
  have d: "?d1 ''000'' = Some (''f1/a/x00012345.jpg'' # [''f1/b/y00011111.jpg''])"
    "?d2 ''000'' = Some (''f2/w00055555.jpg'' # [])" by simp_all
  have run: "process_file demo_os ''src'' ''out'' ?d1 ?d2 0 ''img00012345.jpg'' ?s0 = Inr ?s1"
    by code_simp
  note t = first_path_of_each_index_is_used [where f = "''img00012345.jpg''" and tid = "''000''"
      and ?d1.0 = ?d1 and ?d2.0 = ?d2 and ?p1.0 = "''f1/a/x00012345.jpg''"
      and ?r1.0 = "[''f1/b/y00011111.jpg'']" and ?p2.0 = "''f2/w00055555.jpg''" and ?r2.0 = "[]"
      and os = demo_os and sf = "''src''" and dest = "''out''" and i = 0 and st = ?s0 and st' = ?s1]
  have "(notice ''000'' \<in> set (drop (length (printed ?s0)) (printed ?s1)))
          = (1 < length (''f1/a/x00012345.jpg'' # [''f1/b/y00011111.jpg''])
              \<or> 1 < length (''f2/w00055555.jpg'' # []))"
    using t x d run by blast
  then have "notice ''000'' \<in> set
          [''Multiple matches found for 000, using the first one from each folder'',
           ''Matched and copied files with truncated identifier: 000'']" by simp
  then show ?thesis using x run by blast
qed

text \<open>
  C8. After any part of the source list the counter has grown by the number of
  files that are in both indices, and three copies were made for each of them;
  one file adds one to the counter when it is in both indices and nothing
  otherwise. A file that is not in both indices never ends the pass. When the
  program returns, the last line printed is the total with the final counter,
  which is a third of the number of copies made. If creating the destination,
  listing the source folder and copying do not fail, the program returns.
\<close>

theorem counter_counts_match_groups:
  "(match_loop os sf dest d1 d2 xs st = Inr st' \<longrightarrow>
      matches_found st' = matches_found st + length (filter (\<lambda>x. in_both d1 d2 (snd x)) xs)
      \<and> length (copied st')
           = length (copied st) + 3 * length (filter (\<lambda>x. in_both d1 d2 (snd x)) xs))
   \<and> match_loop os sf dest d1 d2 (xs @ ys) st
       = bind_err (match_loop os sf dest d1 d2 xs st) (match_loop os sf dest d1 d2 ys)
   \<and> (process_file os sf dest d1 d2 i f st = Inr st' \<longrightarrow>
        matches_found st' = matches_found st + (if in_both d1 d2 f then 1 else 0)
        \<and> length (copied st') = length (copied st) + (if in_both d1 d2 f then 3 else 0))
   \<and> (\<not> in_both d1 d2 f \<longrightarrow> (\<exists>line. process_file os sf dest d1 d2 i f st = Inr (print line st)))
   \<and> (find_matching_images os sf f1 f2 dest s0 = Inr st' \<longrightarrow>
        printed st' \<noteq> []
        \<and> last (printed st')
             = ''Total matches found and processed: '' @ str_nat (matches_found st')
        \<and> length (copied st') = 3 * matches_found st')
   \<and> (makedirs os dest s0 \<noteq> None \<and> (\<forall>s. scandir os sf s \<noteq> None)
        \<and> (\<forall>a b s. copy2 os a b s \<noteq> None) \<longrightarrow>
        (\<exists>st''. find_matching_images os sf f1 f2 dest s0 = Inr st''))"
proof (intro conjI impI)
  assume l: "match_loop os sf dest d1 d2 xs st = Inr st'"
  show "matches_found st' = matches_found st + length (filter (\<lambda>x. in_both d1 d2 (snd x)) xs)"
    by (rule match_loop_Inr(2) [OF l])
  show "length (copied st')
           = length (copied st) + 3 * length (filter (\<lambda>x. in_both d1 d2 (snd x)) xs)"
    by (rule match_loop_Inr_length [OF l])
next
  show "match_loop os sf dest d1 d2 (xs @ ys) st
       = bind_err (match_loop os sf dest d1 d2 xs st) (match_loop os sf dest d1 d2 ys)"
    by (rule match_loop_append)
next
  assume p: "process_file os sf dest d1 d2 i f st = Inr st'"
  show "matches_found st' = matches_found st + (if in_both d1 d2 f then 1 else 0)"
    by (rule process_file_Inr(2) [OF p])
  show "length (copied st') = length (copied st) + (if in_both d1 d2 f then 3 else 0)"
    by (rule process_file_Inr_length [OF p])
next
  assume "\<not> in_both d1 d2 f"
  from process_file_not_in_both [OF this, of os sf dest i st]
  show "\<exists>line. process_file os sf dest d1 d2 i f st = Inr (print line st)" by blast
next
  assume r: "find_matching_images os sf f1 f2 dest s0 = Inr st'"
  from find_matching_images_Inr [OF r] obtain s1 es st1 where
    l: "match_loop os sf dest (build_index (os_walk os f1 s1)) (build_index (os_walk os f2 s1))
                (enumerate 0 (source_files_of (map node_name es)))
                \<lparr>filesystem = s1, matches_found = 0, copied = [], printed = []\<rparr> = Inr st1"
    and e: "st' = print (''Total matches found and processed: '' @ str_nat (matches_found st1)) st1"
    by blast
  show "printed st' \<noteq> []" by (simp add: e print_fields)
  show "last (printed st') = ''Total matches found and processed: '' @ str_nat (matches_found st')"
    by (simp add: e print_fields)
  show "length (copied st') = 3 * matches_found st'"
    using match_loop_Inr(2) [OF l] match_loop_Inr_length [OF l] by (simp add: e print_fields)
next
  assume "makedirs os dest s0 \<noteq> None \<and> (\<forall>s. scandir os sf s \<noteq> None)
        \<and> (\<forall>a b s. copy2 os a b s \<noteq> None)"
  then show "\<exists>st''. find_matching_images os sf f1 f2 dest s0 = Inr st''"
    using find_matching_images_total [of os dest s0 sf f1 f2] by blast
qed

theorem counter_counts_match_groups_witness:
  "makedirs demo_os ''out'' () \<noteq> None \<and> (\<forall>s. scandir demo_os ''src'' s \<noteq> None)
   \<and> (\<forall>a b s. copy2 demo_os a b s \<noteq> None)
   \<and> (\<exists>st. find_matching_images demo_os ''src'' ''f1'' ''f2'' ''out'' () = Inr st
         \<and> matches_found st = 2 \<and> length (copied st) = 3 * 2
         \<and> last (printed st) = ''Total matches found and processed: 2'')"
proof -
  have h: "makedirs demo_os ''out'' () \<noteq> None" "\<forall>s. scandir demo_os ''src'' s \<noteq> None"
    "\<forall>a b s. copy2 demo_os a b s \<noteq> None"
    by (simp_all add: demo_os_def)
  note t = counter_counts_match_groups [where os = demo_os and sf = "''src''" and dest = "''out''"
      and ?f1.0 = "''f1''" and ?f2.0 = "''f2''" and ?s0.0 = "()"]
  from t h obtain st where r: "find_matching_images demo_os ''src'' ''f1'' ''f2'' ''out'' () = Inr st"
    by blast
  have m: "matches_found st = 2" using r demo_run by auto
  have "str_nat 2 = ''2''" by code_simp
  moreover from counter_counts_match_groups [where os = demo_os and sf = "''src''"
      and dest = "''out''" and ?f1.0 = "''f1''" and ?f2.0 = "''f2''" and ?s0.0 = "()" and st' = st] r
  have "last (printed st) = ''Total matches found and processed: '' @ str_nat (matches_found st)
        \<and> length (copied st) = 3 * matches_found st" by blast
  ultimately show ?thesis using h r m by auto
qed

text \<open>
  C4. The source list is the listing of the source folder, sorted, with the
  names kept that end in \<open>.jpg\<close> in any case; filtering before or after the
  sort gives the same list, which is in lexicographic order and holds exactly
  the listed names with that suffix. The loop pairs each file with its position
  in this list, counted from zero, and the copies of a completed run are those
  of the files in the order of the list, each group named with the position
  of its file. The listing \<open>b_00010001.jpg\<close>, \<open>a_00020002.jpg\<close> is processed
  as \<open>a_00020002.jpg\<close>, \<open>b_00010001.jpg\<close>.
\<close>

theorem source_list_sorted_and_numbered:
  "source_files_of listing = sort (filter (\<lambda>f. endswith (lower f) ''.jpg'') listing)
   \<and> sorted (source_files_of listing)
   \<and> set (source_files_of listing) = {f \<in> set listing. endswith (lower f) ''.jpg''}
   \<and> enumerate 0 (source_files_of listing)
        = map (\<lambda>i. (i, source_files_of listing ! i)) [0..<length (source_files_of listing)]
   \<and> (find_matching_images os sf f1 f2 dest s0 = Inr st \<longrightarrow>
        (\<exists>s1 es. makedirs os dest s0 = Some s1 \<and> scandir os sf s1 = Some es
           \<and> copied st
               = concat (map (\<lambda>i. expected_copies sf dest (build_index (os_walk os f1 s1))
                                    (build_index (os_walk os f2 s1))
                                    (i, source_files_of (map node_name es) ! i))
                           [0..<length (source_files_of (map node_name es))])))
   \<and> source_files_of [''b_00010001.jpg'', ''a_00020002.jpg'']
        = [''a_00020002.jpg'', ''b_00010001.jpg'']"
proof (intro conjI impI)
  show a: "source_files_of listing = sort (filter (\<lambda>f. endswith (lower f) ''.jpg'') listing)"
    by (rule source_files_of_sort)
  show "sorted (source_files_of listing)" unfolding a by (rule sorted_sort)
  show "set (source_files_of listing) = {f \<in> set listing. endswith (lower f) ''.jpg''}"
    unfolding a by simp
  show "enumerate 0 (source_files_of listing)
        = map (\<lambda>i. (i, source_files_of listing ! i)) [0..<length (source_files_of listing)]"
    by (rule enumerate_nth_map)
  show "source_files_of [''b_00010001.jpg'', ''a_00020002.jpg'']
        = [''a_00020002.jpg'', ''b_00010001.jpg'']"
    by code_simp
next
  assume "find_matching_images os sf f1 f2 dest s0 = Inr st"
  from find_matching_images_copied [OF this] obtain s1 es where
    m: "makedirs os dest s0 = Some s1" "scandir os sf s1 = Some es"
    and c: "copied st = concat (map (expected_copies sf dest (build_index (os_walk os f1 s1))
                                         (build_index (os_walk os f2 s1)))
                                    (enumerate 0 (source_files_of (map node_name es))))"
    by blast
  have "copied st
               = concat (map (\<lambda>i. expected_copies sf dest (build_index (os_walk os f1 s1))
                                    (build_index (os_walk os f2 s1))
                                    (i, source_files_of (map node_name es) ! i))
                           [0..<length (source_files_of (map node_name es))])"
    unfolding c enumerate_nth_map [of "source_files_of (map node_name es)"] map_map comp_def ..
  then show "\<exists>s1 es. makedirs os dest s0 = Some s1 \<and> scandir os sf s1 = Some es
           \<and> copied st
               = concat (map (\<lambda>i. expected_copies sf dest (build_index (os_walk os f1 s1))
                                    (build_index (os_walk os f2 s1))
                                    (i, source_files_of (map node_name es) ! i))
                           [0..<length (source_files_of (map node_name es))])"
    using m by blast
qed

theorem source_list_sorted_and_numbered_witness:
  "source_files_of [''b_00010001.jpg'', ''a_00020002.jpg'', ''photo_final.jpg'', ''z1.JPG'',
                    ''q99.jpg'', ''deep'']
     = [''a_00020002.jpg'', ''b_00010001.jpg'', ''photo_final.jpg'', ''q99.jpg'', ''z1.JPG'']
   \<and> (\<exists>st. find_matching_images demo_os ''src'' ''f1'' ''f2'' ''out'' () = Inr st
         \<and> map snd (copied st)
             = [''out/0000_1_src_a_00020002.jpg'', ''out/0000_2_sub_x00012345.jpg'',
                ''out/0000_3_f2_w00055555.jpg'', ''out/0001_1_src_b_00010001.jpg'',
                ''out/0001_2_sub_x00012345.jpg'', ''out/0001_3_f2_w00055555.jpg''])"
proof -
  let ?listing = "[''b_00010001.jpg'', ''a_00020002.jpg'', ''photo_final.jpg'', ''z1.JPG'',
                    ''q99.jpg'', ''deep'']"
  let ?src = "[''a_00020002.jpg'', ''b_00010001.jpg'', ''photo_final.jpg'', ''q99.jpg'', ''z1.JPG'']"
  let ?entries = "[File ''b_00010001.jpg'', File ''a_00020002.jpg'', File ''photo_final.jpg'',
                File ''z1.JPG'', File ''q99.jpg'', Dir ''deep'' [File ''c_00030003.jpg'']]"
  have s: "source_files_of ?listing = ?src" by code_simp
  have nm: "map node_name ?entries = ?listing" by simp
  obtain st where r: "find_matching_images demo_os ''src'' ''f1'' ''f2'' ''out'' () = Inr st"
    using demo_run by blast
  note t = source_list_sorted_and_numbered [of ?listing demo_os "''src''" "''f1''" "''f2''"
      "''out''" "()" st]
  have "\<exists>s1 es. makedirs demo_os ''out'' () = Some s1 \<and> scandir demo_os ''src'' s1 = Some es
           \<and> copied st
               = concat (map (\<lambda>i. expected_copies ''src'' ''out''
                                    (build_index (os_walk demo_os ''f1'' s1))
                                    (build_index (os_walk demo_os ''f2'' s1))
                                    (i, source_files_of (map node_name es) ! i))
                           [0..<length (source_files_of (map node_name es))])"
    by (rule mp [OF t [THEN conjunct2, THEN conjunct2, THEN conjunct2, THEN conjunct2,
                       THEN conjunct1] r])
  then obtain s1 es where m: "scandir demo_os ''src'' s1 = Some es"
    and c: "copied st
               = concat (map (\<lambda>i. expected_copies ''src'' ''out''
                                    (build_index (os_walk demo_os ''f1'' s1))
                                    (build_index (os_walk demo_os ''f2'' s1))
                                    (i, source_files_of (map node_name es) ! i))
                           [0..<length (source_files_of (map node_name es))])"
    by (elim exE conjE)
  have es: "es = ?entries" using m by (simp add: demo_os_def)
  have u: "s1 = ()" by (rule unit_eq)
  have c2: "copied st
               = concat (map (\<lambda>i. expected_copies ''src'' ''out''
                                    (build_index (os_walk demo_os ''f1'' ()))
                                    (build_index (os_walk demo_os ''f2'' ()))
                                    (i, ?src ! i))
                           [0..<length ?src])"
    using c by (simp only: es u nm s)
  have e: "concat (map (\<lambda>i. expected_copies ''src'' ''out'' (build_index (os_walk demo_os ''f1'' ()))
                                    (build_index (os_walk demo_os ''f2'' ()))
                                    (i, ?src ! i)) [0..<length ?src])
      = [(''src/a_00020002.jpg'', ''out/0000_1_src_a_00020002.jpg''),
           (''f1/sub/x00012345.jpg'', ''out/0000_2_sub_x00012345.jpg''),
           (''f2/w00055555.jpg'', ''out/0000_3_f2_w00055555.jpg''),
           (''src/b_00010001.jpg'', ''out/0001_1_src_b_00010001.jpg''),
           (''f1/sub/x00012345.jpg'', ''out/0001_2_sub_x00012345.jpg''),
           (''f2/w00055555.jpg'', ''out/0001_3_f2_w00055555.jpg'')]"
    by code_simp
  have ms: "map snd (copied st)
             = [''out/0000_1_src_a_00020002.jpg'', ''out/0000_2_sub_x00012345.jpg'',
                ''out/0000_3_f2_w00055555.jpg'', ''out/0001_1_src_b_00010001.jpg'',
                ''out/0001_2_sub_x00012345.jpg'', ''out/0001_3_f2_w00055555.jpg'']"
    by (simp only: c2 e list.map snd_conv)
  have "\<exists>st. find_matching_images demo_os ''src'' ''f1'' ''f2'' ''out'' () = Inr st
         \<and> map snd (copied st)
             = [''out/0000_1_src_a_00020002.jpg'', ''out/0000_2_sub_x00012345.jpg'',
                ''out/0000_3_f2_w00055555.jpg'', ''out/0001_1_src_b_00010001.jpg'',
                ''out/0001_2_sub_x00012345.jpg'', ''out/0001_3_f2_w00055555.jpg'']"
    by (rule exI [of _ st]) (rule conjI [OF r ms])
  with s show ?thesis by (rule conjI)
qed

section \<open>Destination names\<close>

text \<open>
  C10. The destination paths of the copies of a completed run, and of any
  completed part of the loop started with no copies, are pairwise distinct.
  The three names of one group are distinct, and the names of two groups with
  different indices have nothing in common: the digits at the start of a name
  are the formatted index, which determines the index. A destination path is the
  same prefix followed by the name.
\<close>

theorem destination_names_distinct:
  "(find_matching_images os sf f1 f2 dest s0 = Inr st \<longrightarrow> distinct (map snd (copied st)))
   \<and> (match_loop os sf dest d1 d2 (enumerate n files) st0 = Inr st' \<and> copied st0 = [] \<longrightarrow>
        distinct (map snd (copied st')))
   \<and> distinct [new_source_name i sf sp, new_folder1_name i p1, new_folder2_name i p2]
   \<and> (i \<noteq> j \<longrightarrow>
        set [new_source_name i sf sp, new_folder1_name i p1, new_folder2_name i p2]
          \<inter> set [new_source_name j sf' sp', new_folder1_name j q1, new_folder2_name j q2] = {})
   \<and> takeWhile is_digit (new_source_name i sf sp) = fmt_04d i
   \<and> takeWhile is_digit (new_folder1_name i p1) = fmt_04d i
   \<and> takeWhile is_digit (new_folder2_name i p2) = fmt_04d i
   \<and> (fmt_04d i = fmt_04d j) = (i = j)
   \<and> join dest (new_source_name i sf sp) = sep_prefix dest @ new_source_name i sf sp
   \<and> join dest (new_folder1_name i p1) = sep_prefix dest @ new_folder1_name i p1
   \<and> join dest (new_folder2_name i p2) = sep_prefix dest @ new_folder2_name i p2"
proof (intro conjI impI)
  assume "find_matching_images os sf f1 f2 dest s0 = Inr st"
  from find_matching_images_copied [OF this] obtain s1 es where
    c: "copied st = concat (map (expected_copies sf dest (build_index (os_walk os f1 s1))
                                         (build_index (os_walk os f2 s1)))
                                    (enumerate 0 (source_files_of (map node_name es))))"
    by blast
  show "distinct (map snd (copied st))"
    unfolding c by (rule expected_copies_distinct) (rule enumerate_fst_distinct)
next
  assume "match_loop os sf dest d1 d2 (enumerate n files) st0 = Inr st' \<and> copied st0 = []"
  then have "copied st' = concat (map (expected_copies sf dest d1 d2) (enumerate n files))"
    using match_loop_Inr(1) [of os sf dest d1 d2 "enumerate n files" st0 st'] by simp
  then show "distinct (map snd (copied st'))"
    using expected_copies_distinct [OF enumerate_fst_distinct, of sf dest d1 d2 n files] by simp
next
  have "distinct (map (dest_key 0)
          [new_source_name i sf sp, new_folder1_name i p1, new_folder2_name i p2])"
    by (simp add: name_keys)
  then show "distinct [new_source_name i sf sp, new_folder1_name i p1, new_folder2_name i p2]"
    by (simp only: distinct_map)
next
  assume ne: "i \<noteq> j"
  show "set [new_source_name i sf sp, new_folder1_name i p1, new_folder2_name i p2]
          \<inter> set [new_source_name j sf' sp', new_folder1_name j q1, new_folder2_name j q2] = {}"
  proof (rule ccontr)
    assume "set [new_source_name i sf sp, new_folder1_name i p1, new_folder2_name i p2]
          \<inter> set [new_source_name j sf' sp', new_folder1_name j q1, new_folder2_name j q2] \<noteq> {}"
    then obtain x where x: "x \<in> set [new_source_name i sf sp, new_folder1_name i p1, new_folder2_name i p2]"
      "x \<in> set [new_source_name j sf' sp', new_folder1_name j q1, new_folder2_name j q2]"
      by blast
    from x(1) have "fst (dest_key 0 x) = i" by (auto simp: name_keys)
    moreover from x(2) have "fst (dest_key 0 x) = j" by (auto simp: name_keys)
    ultimately show False using ne by simp
  qed
next
  have nd: "\<not> is_digit CHR ''_''" by (simp add: is_digit_def)
  have tw: "takeWhile is_digit (fmt_04d i @ CHR ''_'' # t) = fmt_04d i" for t
    using fmt_04d_digits [of i] nd by (simp add: takeWhile_append2 list_all_iff)
  show "takeWhile is_digit (new_source_name i sf sp) = fmt_04d i"
    by (simp only: new_source_name_def Let_def append.simps tw)
  show "takeWhile is_digit (new_folder1_name i p1) = fmt_04d i"
    by (simp only: new_folder1_name_def Let_def append.simps tw)
  show "takeWhile is_digit (new_folder2_name i p2) = fmt_04d i"
    by (simp only: new_folder2_name_def Let_def append.simps tw)
next
  show "(fmt_04d i = fmt_04d j) = (i = j)" by (rule fmt_04d_inj)
next
  show "join dest (new_source_name i sf sp) = sep_prefix dest @ new_source_name i sf sp"
    by (simp only: new_source_name_def Let_def join_fmt)
  show "join dest (new_folder1_name i p1) = sep_prefix dest @ new_folder1_name i p1"
    by (simp only: new_folder1_name_def Let_def join_fmt)
  show "join dest (new_folder2_name i p2) = sep_prefix dest @ new_folder2_name i p2"
    by (simp only: new_folder2_name_def Let_def join_fmt)
qed

theorem destination_names_distinct_witness:
  "\<exists>st. find_matching_images demo_os ''src'' ''f1'' ''f2'' ''out'' () = Inr st
     \<and> length (copied st) = 6 \<and> distinct (map snd (copied st))"
proof -
  obtain st where r: "find_matching_images demo_os ''src'' ''f1'' ''f2'' ''out'' () = Inr st"
    and l: "length (copied st) = 6"
    using demo_run by auto
  from destination_names_distinct [of demo_os "''src''" "''f1''" "''f2''" "''out''" "()" st] r
  have "distinct (map snd (copied st))" by blast
  then show ?thesis using r l by blast
qed



end
